theory Spec2Isabelle
  imports Complex_Main
begin

section \<open>Strings of UTF-16 code units\<close>

text \<open>
  A JavaScript string is a sequence of 16-bit code units. A code unit is modelled as a
  natural number (below 65536 in every string the program can see; no function below
  depends on the bound), so that \<open>length\<close> is the \<open>.length\<close> of the source and the
  fraction glyphs U+00BD, U+2153, ... are single elements.
\<close>

type_synonym ustring = "nat list"

definition ascii :: "string \<Rightarrow> ustring" where
  "ascii s = map of_char s"

definition is_digit :: "nat \<Rightarrow> bool" where
  \<comment> \<open>\<open>\d\<close>, \<open>[0-9]\<close>\<close>
  "is_digit c = (48 \<le> c \<and> c \<le> 57)"

definition is_upper :: "nat \<Rightarrow> bool" where
  \<comment> \<open>\<open>[A-Z]\<close>\<close>
  "is_upper c = (65 \<le> c \<and> c \<le> 90)"

definition is_lower :: "nat \<Rightarrow> bool" where
  "is_lower c = (97 \<le> c \<and> c \<le> 122)"

definition is_word :: "nat \<Rightarrow> bool" where
  \<comment> \<open>\<open>\w\<close> is \<open>[A-Za-z0-9_]\<close>\<close>
  "is_word c = (is_digit c \<or> is_upper c \<or> is_lower c \<or> c = 95)"

definition is_letter :: "nat \<Rightarrow> bool" where
  \<comment> \<open>\<open>[A-Za-z]\<close>\<close>
  "is_letter c = (is_upper c \<or> is_lower c)"

definition is_space :: "nat \<Rightarrow> bool" where
  \<comment> \<open>\<open>\s\<close> and the characters \<open>trim()\<close> strips: ECMAScript WhiteSpace and LineTerminator\<close>
  "is_space c =
     ((9 \<le> c \<and> c \<le> 13) \<or> c = 32 \<or> c = 160 \<or> c = 5760 \<or> (8192 \<le> c \<and> c \<le> 8202)
      \<or> c = 8232 \<or> c = 8233 \<or> c = 8239 \<or> c = 8287 \<or> c = 12288 \<or> c = 65279)"

definition canon :: "nat \<Rightarrow> nat" where
  \<comment> \<open>Canonicalize of a regular expression with the \<open>i\<close> flag and without the \<open>u\<close> flag, on
     the ASCII range: the patterns of this program hold ASCII letters only, and a code unit
     above 127 is never canonicalized to one below 128.\<close>
  "canon c = (if is_lower c then c - 32 else c)"

definition trim :: "ustring \<Rightarrow> ustring" where
  \<comment> \<open>\<open>String.prototype.trim\<close>\<close>
  "trim s = rev (dropWhile is_space (rev (dropWhile is_space s)))"

fun is_prefix :: "ustring \<Rightarrow> ustring \<Rightarrow> bool" where
  "is_prefix [] ys = True"
| "is_prefix (x # xs) [] = False"
| "is_prefix (x # xs) (y # ys) = (x = y \<and> is_prefix xs ys)"

fun includes_str :: "ustring \<Rightarrow> ustring \<Rightarrow> bool" where
  \<comment> \<open>\<open>s.includes(p)\<close>\<close>
  "includes_str [] p = is_prefix p []"
| "includes_str (x # xs) p = (is_prefix p (x # xs) \<or> includes_str xs p)"

definition endsWith :: "ustring \<Rightarrow> ustring \<Rightarrow> bool" where
  "endsWith s p = is_prefix (rev p) (rev s)"

section \<open>Regular expressions\<close>

text \<open>
  The fragment of ECMAScript regular expressions the program uses, with the backtracking
  semantics of the language specification: a matcher takes a continuation, alternatives
  and quantifiers try their choices in priority order, and the first choice whose
  continuation succeeds wins.
\<close>

datatype regex =
    Lit nat                \<comment> \<open>a pattern character\<close>
  | Class "nat \<Rightarrow> bool"     \<comment> \<open>a character class\<close>
  | Cat regex regex        \<comment> \<open>\<open>r1 r2\<close>\<close>
  | Alt regex regex        \<comment> \<open>\<open>r1|r2\<close>\<close>
  | Star regex             \<comment> \<open>\<open>r*\<close>, greedy\<close>
  | LazyStar regex         \<comment> \<open>\<open>r*?\<close>\<close>
  | Opt regex              \<comment> \<open>\<open>r?\<close>\<close>
  | Ahead regex            \<comment> \<open>\<open>(?=r)\<close>\<close>
  | NotAhead regex         \<comment> \<open>\<open>(?!r)\<close>\<close>
  | WordB                  \<comment> \<open>\<open>\b\<close>\<close>
  | Bol                    \<comment> \<open>\<open>^\<close> (no \<open>m\<close> flag)\<close>
  | Eol                    \<comment> \<open>\<open>$\<close> (no \<open>m\<close> flag)\<close>
  | Group regex            \<comment> \<open>\<open>(r)\<close>, the capture group 1\<close>
  | Eps                    \<comment> \<open>the empty pattern\<close>

abbreviation Plus :: "regex \<Rightarrow> regex" where
  \<comment> \<open>\<open>r+\<close>, greedy\<close>
  "Plus r \<equiv> Cat r (Star r)"

primrec Str :: "ustring \<Rightarrow> regex \<Rightarrow> regex" where
  \<comment> \<open>a run of pattern characters followed by \<open>r\<close>\<close>
  "Str [] r = r"
| "Str (c # cs) r = Cat (Lit c) (Str cs r)"

text \<open>
  The state of a match: the code unit before the current position (\<open>None\<close> at the start
  of the input), the input from the current position on, and the capture of group 1.
\<close>

datatype mstate = MState (prev: "nat option") (rest: ustring) (cap1: "ustring option")

definition at_word_boundary :: "mstate \<Rightarrow> bool" where
  "at_word_boundary st =
     ((case prev st of None \<Rightarrow> False | Some c \<Rightarrow> is_word c)
      \<noteq> (case rest st of [] \<Rightarrow> False | c # _ \<Rightarrow> is_word c))"

text \<open>
  The repeat matcher of \<open>*\<close> and \<open>*?\<close>. An iteration that consumes nothing is rejected, as
  in the language specification, so every iteration shortens the input; the counter starts
  at the length of the input and is therefore never the reason for stopping.
\<close>

fun star_loop ::
  "((mstate \<Rightarrow> mstate option) \<Rightarrow> mstate \<Rightarrow> mstate option) \<Rightarrow> bool
     \<Rightarrow> (mstate \<Rightarrow> mstate option) \<Rightarrow> nat \<Rightarrow> mstate \<Rightarrow> mstate option" where
  "star_loop step greedy k 0 st = k st"
| "star_loop step greedy k (Suc n) st =
     (if greedy
      then (case step (\<lambda>st'. if length (rest st') < length (rest st)
                              then star_loop step greedy k n st' else None) st of
              Some v \<Rightarrow> Some v
            | None \<Rightarrow> k st)
      else (case k st of
              Some v \<Rightarrow> Some v
            | None \<Rightarrow> step (\<lambda>st'. if length (rest st') < length (rest st)
                                  then star_loop step greedy k n st' else None) st))"

primrec m :: "regex \<Rightarrow> bool \<Rightarrow> (mstate \<Rightarrow> mstate option) \<Rightarrow> mstate \<Rightarrow> mstate option" where
  "m (Lit c) ci k st =
     (case rest st of
        [] \<Rightarrow> None
      | x # xs \<Rightarrow> if (if ci then canon x = canon c else x = c)
                   then k (MState (Some x) xs (cap1 st)) else None)"
| "m (Class P) ci k st =
     (case rest st of
        [] \<Rightarrow> None
      | x # xs \<Rightarrow> if P x then k (MState (Some x) xs (cap1 st)) else None)"
| "m (Cat r1 r2) ci k st = m r1 ci (m r2 ci k) st"
| "m (Alt r1 r2) ci k st =
     (case m r1 ci k st of Some v \<Rightarrow> Some v | None \<Rightarrow> m r2 ci k st)"
| "m (Star r) ci k st = star_loop (m r ci) True k (length (rest st)) st"
| "m (LazyStar r) ci k st = star_loop (m r ci) False k (length (rest st)) st"
| "m (Opt r) ci k st =
     (case m r ci (\<lambda>st'. if length (rest st') < length (rest st) then k st' else None) st of
        Some v \<Rightarrow> Some v
      | None \<Rightarrow> k st)"
| "m (Ahead r) ci k st =
     (case m r ci Some st of
        Some st' \<Rightarrow> k (MState (prev st) (rest st) (cap1 st'))
      | None \<Rightarrow> None)"
| "m (NotAhead r) ci k st =
     (case m r ci Some st of Some st' \<Rightarrow> None | None \<Rightarrow> k st)"
| "m WordB ci k st = (if at_word_boundary st then k st else None)"
| "m Bol ci k st = (if prev st = None then k st else None)"
| "m Eol ci k st = (if rest st = [] then k st else None)"
| "m (Group r) ci k st =
     m r ci (\<lambda>st'. k (MState (prev st') (rest st')
                        (Some (take (length (rest st) - length (rest st')) (rest st))))) st"
| "m Eps ci k st = k st"

definition match_at :: "regex \<Rightarrow> bool \<Rightarrow> nat option \<Rightarrow> ustring \<Rightarrow> (nat \<times> ustring option) option" where
  \<comment> \<open>the match that starts exactly at the current position: its length and group 1\<close>
  "match_at r ci p xs =
     (case m r ci Some (MState p xs None) of
        None \<Rightarrow> None
      | Some st \<Rightarrow> Some (length xs - length (rest st), cap1 st))"

text \<open>
  \<open>s.match(/r/g)\<close>: every match, from left to right; the search resumes where the last
  match ended, one code unit further after an empty match. The source's \<open>null\<close> (no match)
  is \<open>None\<close>.
\<close>

declare star_loop.simps [simp del]

function matches_from :: "regex \<Rightarrow> bool \<Rightarrow> nat option \<Rightarrow> ustring \<Rightarrow> ustring list" where
  "matches_from r ci p xs =
     (case match_at r ci p xs of
        None \<Rightarrow> (case xs of [] \<Rightarrow> [] | c # cs \<Rightarrow> matches_from r ci (Some c) cs)
      | Some (n, g) \<Rightarrow>
          take n xs #
          (if n = 0 then (case xs of [] \<Rightarrow> [] | c # cs \<Rightarrow> matches_from r ci (Some c) cs)
           else matches_from r ci (Some (last (take n xs))) (drop n xs)))"
  by pat_completeness auto
termination
  by (relation "measure (\<lambda>(r, ci, p, xs). length xs)")
     (auto simp: match_at_def split: option.splits)

declare matches_from.simps [simp del]

definition match_g :: "regex \<Rightarrow> bool \<Rightarrow> ustring \<Rightarrow> ustring list option" where
  "match_g r ci s = (case matches_from r ci None s of [] \<Rightarrow> None | ms \<Rightarrow> Some ms)"

text \<open>
  \<open>s.replace(/r/g, f)\<close> with a replacer function of the match and group 1 (a replacement
  string without \<open>$\<close> is the constant function).
\<close>

function replace_from ::
  "regex \<Rightarrow> bool \<Rightarrow> (ustring \<Rightarrow> ustring option \<Rightarrow> ustring) \<Rightarrow> nat option \<Rightarrow> ustring \<Rightarrow> ustring" where
  "replace_from r ci f p xs =
     (case match_at r ci p xs of
        None \<Rightarrow> (case xs of [] \<Rightarrow> [] | c # cs \<Rightarrow> c # replace_from r ci f (Some c) cs)
      | Some (n, g) \<Rightarrow>
          f (take n xs) g @
          (if n = 0 then (case xs of [] \<Rightarrow> [] | c # cs \<Rightarrow> c # replace_from r ci f (Some c) cs)
           else replace_from r ci f (Some (last (take n xs))) (drop n xs)))"
  by pat_completeness auto
termination
  by (relation "measure (\<lambda>(r, ci, f, p, xs). length xs)")
     (auto simp: match_at_def split: option.splits)

declare replace_from.simps [simp del]

definition replace_g :: "regex \<Rightarrow> bool \<Rightarrow> (ustring \<Rightarrow> ustring option \<Rightarrow> ustring) \<Rightarrow> ustring \<Rightarrow> ustring" where
  "replace_g r ci f s = replace_from r ci f None s"

text \<open>\<open>s.replace(/r/, f)\<close> without the \<open>g\<close> flag: the leftmost match only.\<close>

fun replace_first_from ::
  "regex \<Rightarrow> bool \<Rightarrow> (ustring \<Rightarrow> ustring option \<Rightarrow> ustring) \<Rightarrow> nat option \<Rightarrow> ustring \<Rightarrow> ustring" where
  "replace_first_from r ci f p [] =
     (case match_at r ci p [] of None \<Rightarrow> [] | Some (n, g) \<Rightarrow> f [] g)"
| "replace_first_from r ci f p (c # cs) =
     (case match_at r ci p (c # cs) of
        None \<Rightarrow> c # replace_first_from r ci f (Some c) cs
      | Some (n, g) \<Rightarrow> f (take n (c # cs)) g @ drop n (c # cs))"

definition replace_first :: "regex \<Rightarrow> bool \<Rightarrow> (ustring \<Rightarrow> ustring option \<Rightarrow> ustring) \<Rightarrow> ustring \<Rightarrow> ustring" where
  "replace_first r ci f s = replace_first_from r ci f None s"

text \<open>\<open>s.match(/r/)\<close> used as a condition: is there a match anywhere?\<close>

fun test_from :: "regex \<Rightarrow> bool \<Rightarrow> nat option \<Rightarrow> ustring \<Rightarrow> bool" where
  "test_from r ci p [] = (match_at r ci p [] \<noteq> None)"
| "test_from r ci p (c # cs) = (match_at r ci p (c # cs) \<noteq> None \<or> test_from r ci (Some c) cs)"

text \<open>
  \<open>s.split(/r/)\<close> for a pattern without capture groups: the pattern is tried at every
  position \<open>q\<close> before the end of the string; the piece collected so far is \<open>acc\<close>
  (reversed). A match that ends where the current piece starts (an empty match, with
  nothing collected) is skipped; an empty match after a piece ends the piece, and the
  search goes on one code unit further.
\<close>

function split_from :: "regex \<Rightarrow> bool \<Rightarrow> ustring \<Rightarrow> nat option \<Rightarrow> ustring \<Rightarrow> ustring list" where
  "split_from r ci acc p xs =
     (case xs of
        [] \<Rightarrow> [rev acc]
      | c # cs \<Rightarrow>
          (case match_at r ci p xs of
             None \<Rightarrow> split_from r ci (c # acc) (Some c) cs
           | Some (n, g) \<Rightarrow>
               if n = 0
               then (if acc = [] then split_from r ci [c] (Some c) cs
                     else rev acc # split_from r ci [c] (Some c) cs)
               else rev acc # split_from r ci [] (Some (last (take n xs))) (drop n xs)))"
  by pat_completeness auto
termination
  by (relation "measure (\<lambda>(r, ci, acc, p, xs). length xs)")
     (auto simp: match_at_def split: option.splits)

declare split_from.simps [simp del]

definition split_re :: "regex \<Rightarrow> bool \<Rightarrow> ustring \<Rightarrow> ustring list" where
  "split_re r ci s =
     (if s = [] then (if match_at r ci None [] = None then [[]] else [])
      else split_from r ci [] None s)"

section \<open>The texts a pattern can match\<close>

text \<open>
  For the proofs: the set of the texts a pattern can consume, whatever stands around them
  (assertions consume nothing), and the code unit before the position reached after a text.
\<close>

inductive_set star_lang :: "ustring set \<Rightarrow> ustring set" for A :: "ustring set" where
  star_lang_Nil: "[] \<in> star_lang A"
| star_lang_Step: "u \<in> A \<Longrightarrow> v \<in> star_lang A \<Longrightarrow> u @ v \<in> star_lang A"

primrec lang :: "regex \<Rightarrow> bool \<Rightarrow> ustring set" where
  "lang (Lit c) ci = {[x] | x. if ci then canon x = canon c else x = c}"
| "lang (Class P) ci = {[x] | x. P x}"
| "lang (Cat r1 r2) ci = {u @ v | u v. u \<in> lang r1 ci \<and> v \<in> lang r2 ci}"
| "lang (Alt r1 r2) ci = lang r1 ci \<union> lang r2 ci"
| "lang (Star r) ci = star_lang (lang r ci)"
| "lang (LazyStar r) ci = star_lang (lang r ci)"
| "lang (Opt r) ci = insert [] (lang r ci)"
| "lang (Ahead r) ci = {[]}"
| "lang (NotAhead r) ci = {[]}"
| "lang WordB ci = {[]}"
| "lang Bol ci = {[]}"
| "lang Eol ci = {[]}"
| "lang (Group r) ci = lang r ci"
| "lang Eps ci = {[]}"

definition prev_after :: "nat option \<Rightarrow> ustring \<Rightarrow> nat option" where
  "prev_after p xs = (if xs = [] then p else Some (last xs))"

section \<open>StepSegmenter: getInstructionSteps\<close>

definition numbered_re :: regex where
  \<comment> \<open>\<open>/\d+\.\s*[^0-9]*?(?=\d+\.|$)/g\<close>\<close>
  "numbered_re =
     Cat (Plus (Class is_digit))
       (Cat (Lit 46)
         (Cat (Star (Class is_space))
           (Cat (LazyStar (Class (\<lambda>c. \<not> is_digit c)))
             (Ahead (Alt (Cat (Plus (Class is_digit)) (Lit 46)) Eol)))))"

definition marker_re :: regex where
  \<comment> \<open>\<open>/^\d+\.\s*/\<close>\<close>
  "marker_re = Cat Bol (Cat (Plus (Class is_digit)) (Cat (Lit 46) (Star (Class is_space))))"

definition sentence_re :: regex where
  \<comment> \<open>\<open>/\.\s+(?=[A-Z])|\n\n+/\<close>\<close>
  "sentence_re =
     Alt (Cat (Lit 46) (Cat (Plus (Class is_space)) (Ahead (Class is_upper))))
         (Cat (Lit 10) (Plus (Lit 10)))"

definition strip_marker :: "ustring \<Rightarrow> ustring" where
  \<comment> \<open>\<open>step.replace(/^\d+\.\s*/, '').trim()\<close>\<close>
  "strip_marker step = trim (replace_first marker_re False (\<lambda>mt g. []) step)"

definition add_period :: "ustring \<Rightarrow> ustring" where
  \<comment> \<open>\<open>step.endsWith('.') ? step : step + '.'\<close>\<close>
  "add_period step = (if endsWith step [46] then step else step @ [46])"

definition fallback_steps :: "ustring \<Rightarrow> ustring list" where
  "fallback_steps instructions =
     map add_period
       (filter (\<lambda>step. length step > 20)
         (map trim (split_re sentence_re False instructions)))"

definition getInstructionSteps :: "ustring \<Rightarrow> ustring list" where
  "getInstructionSteps instructions =
     (case match_g numbered_re False instructions of
        Some numberedSteps \<Rightarrow>
          if length numberedSteps > 1
          then filter (\<lambda>step. length step > 0) (map strip_marker numberedSteps)
          else fallback_steps instructions
      | None \<Rightarrow> fallback_steps instructions)"




definition numbered_path :: "ustring \<Rightarrow> bool" where
  \<comment> \<open>the condition \<open>numberedSteps && numberedSteps.length > 1\<close>\<close>
  "numbered_path instructions =
     (case match_g numbered_re False instructions of
        None \<Rightarrow> False
      | Some numberedSteps \<Rightarrow> length numberedSteps > 1)"





section \<open>UnitExpander: expandUnits\<close>

definition parseInt :: "ustring \<Rightarrow> nat option" where
  \<comment> \<open>\<open>parseInt\<close> on the strings it is given here, group 1 of a pattern \<open>(\d+)\<close>: leading
     white space is skipped and the longest run of decimal digits is read; \<open>None\<close> is NaN. A
     sign and a \<open>0x\<close> prefix cannot occur in such a string. The source compares the result
     with 1, and the double nearest to a natural number is 1 only for the number 1.\<close>
  "parseInt s =
     (case takeWhile is_digit (dropWhile is_space s) of
        [] \<Rightarrow> None
      | ds \<Rightarrow> Some (foldl (\<lambda>a c. 10 * a + (c - 48)) 0 ds))"

definition const_repl :: "ustring \<Rightarrow> ustring \<Rightarrow> ustring option \<Rightarrow> ustring" where
  \<comment> \<open>a replacement string (none of the program's holds a \<open>$\<close>)\<close>
  "const_repl w mt g = w"

definition plural_repl :: "ustring \<Rightarrow> ustring option \<Rightarrow> ustring" where
  \<comment> \<open>\<open>(match, num) => parseInt(num) === 1 ? match : match + 's'\<close>\<close>
  "plural_repl mt g =
     (if (case g of None \<Rightarrow> None | Some num \<Rightarrow> parseInt num) = Some 1 then mt else mt @ [115])"

definition fraction_re :: "string \<Rightarrow> regex" where
  \<comment> \<open>\<open>/1\/2/g\<close> and its five siblings\<close>
  "fraction_re w = Str (ascii w) Eps"

definition unit_re :: "string \<Rightarrow> regex" where
  \<comment> \<open>\<open>/\bW\b\.?/\<close>\<close>
  "unit_re w = Cat WordB (Str (ascii w) (Cat WordB (Opt (Lit 46))))"

definition floz_re :: regex where
  \<comment> \<open>\<open>/\bfl\.?\s*oz\b\.?/gi\<close>\<close>
  "floz_re =
     Cat WordB (Str (ascii ''fl'') (Cat (Opt (Lit 46)) (Cat (Star (Class is_space))
       (Str (ascii ''oz'') (Cat WordB (Opt (Lit 46)))))))"

definition metric_re :: "string \<Rightarrow> regex" where
  \<comment> \<open>\<open>/\bW\b(?!\w)/gi\<close>\<close>
  "metric_re w = Cat WordB (Str (ascii w) (Cat WordB (NotAhead (Class is_word))))"

definition plural_re :: "string \<Rightarrow> regex" where
  \<comment> \<open>\<open>/(\d+)\s*W(?!s)/gi\<close>\<close>
  "plural_re w =
     Cat (Group (Plus (Class is_digit))) (Cat (Star (Class is_space))
       (Str (ascii w) (NotAhead (Lit 115))))"

definition fraction_passes :: "(ustring \<Rightarrow> ustring) list" where
  "fraction_passes =
     [replace_g (fraction_re ''1/2'') False (const_repl [189]),
      replace_g (fraction_re ''1/3'') False (const_repl [8531]),
      replace_g (fraction_re ''2/3'') False (const_repl [8532]),
      replace_g (fraction_re ''1/4'') False (const_repl [188]),
      replace_g (fraction_re ''3/4'') False (const_repl [190]),
      replace_g (fraction_re ''1/8'') False (const_repl [8539])]"

definition unit_passes :: "(ustring \<Rightarrow> ustring) list" where
  "unit_passes =
     [replace_g (unit_re ''tsp'') True (const_repl (ascii ''teaspoon'')),
      replace_g (unit_re ''tbsp'') True (const_repl (ascii ''tablespoon'')),
      replace_g (unit_re ''tbl'') True (const_repl (ascii ''tablespoon'')),
      replace_g (unit_re ''T'') False (const_repl (ascii ''tablespoon'')),
      replace_g (unit_re ''t'') False (const_repl (ascii ''teaspoon'')),
      replace_g (unit_re ''oz'') True (const_repl (ascii ''ounce'')),
      replace_g (unit_re ''lb'') True (const_repl (ascii ''pound'')),
      replace_g (unit_re ''lbs'') True (const_repl (ascii ''pounds'')),
      replace_g (unit_re ''pt'') True (const_repl (ascii ''pint'')),
      replace_g (unit_re ''qt'') True (const_repl (ascii ''quart'')),
      replace_g (unit_re ''gal'') True (const_repl (ascii ''gallon'')),
      replace_g floz_re True (const_repl (ascii ''fluid ounce'')),
      replace_g (metric_re ''g'') True (const_repl (ascii ''gram'')),
      replace_g (metric_re ''kg'') True (const_repl (ascii ''kilogram'')),
      replace_g (metric_re ''ml'') True (const_repl (ascii ''milliliter'')),
      replace_g (metric_re ''l'') True (const_repl (ascii ''liter''))]"

definition plural_passes :: "(ustring \<Rightarrow> ustring) list" where
  "plural_passes =
     [replace_g (plural_re ''teaspoon'') True plural_repl,
      replace_g (plural_re ''tablespoon'') True plural_repl,
      replace_g (plural_re ''ounce'') True plural_repl]"

definition run_passes :: "(ustring \<Rightarrow> ustring) list \<Rightarrow> ustring \<Rightarrow> ustring" where
  \<comment> \<open>a chain of method calls, the first of the list applied first\<close>
  "run_passes ps s = foldl (\<lambda>t f. f t) s ps"

definition expandUnits :: "ustring \<Rightarrow> ustring" where
  "expandUnits measure_s =
     (if measure_s = [] then measure_s
      else trim (run_passes plural_passes
                  (run_passes unit_passes (run_passes fraction_passes measure_s))))"

text \<open>
  The fraction substitution in the words of the specification, to be compared with the
  six replace calls of the source: every occurrence of an ASCII vulgar fraction, from
  left to right, becomes its glyph, one fraction after the other in the order of the
  list.
\<close>

function replace_all :: "ustring \<Rightarrow> ustring \<Rightarrow> ustring \<Rightarrow> ustring" where
  \<comment> \<open>every occurrence of the text \<open>pat\<close> replaced by \<open>rep\<close>\<close>
  "replace_all pat rep xs =
     (case xs of
        [] \<Rightarrow> []
      | c # cs \<Rightarrow>
          if pat \<noteq> [] \<and> is_prefix pat xs
          then rep @ replace_all pat rep (drop (length pat) xs)
          else c # replace_all pat rep cs)"
  by pat_completeness auto
termination
  by (relation "measure (\<lambda>(pat, rep, xs). length xs)") auto

declare replace_all.simps [simp del]

definition vulgar_fractions :: "(string \<times> nat) list" where
  "vulgar_fractions =
     [(''1/2'', 189), (''1/3'', 8531), (''2/3'', 8532), (''1/4'', 188), (''3/4'', 190),
      (''1/8'', 8539)]"

definition spec_fractions :: "ustring \<Rightarrow> ustring" where
  "spec_fractions s =
     foldl (\<lambda>t (fraction, glyph). replace_all (ascii fraction) [glyph] t) s vulgar_fractions"

text \<open>
  The pluralization in words, to be compared with the three plural passes of the source:
  wherever a digit sequence, with or without white space after it, stands immediately
  before the unit word, in any letter case, and the word is not followed by the letter
  \<open>s\<close>, an \<open>s\<close> is appended to the word unless the digit sequence reads as the number
  1; the text is gone through from left to right and nothing else is changed.
\<close>

definition reads_as_one :: "ustring \<Rightarrow> bool" where
  \<comment> \<open>a digit sequence that is the digit 1, possibly after zeros\<close>
  "reads_as_one ds = (dropWhile (\<lambda>d. d = 48) ds = [49])"

definition word_follows :: "ustring \<Rightarrow> ustring \<Rightarrow> bool" where
  \<comment> \<open>the text starts with the word, in any letter case, and does not go on with an \<open>s\<close>\<close>
  "word_follows w r =
     (length w \<le> length r \<and> map canon (take (length w) r) = map canon w
      \<and> (case drop (length w) r of [] \<Rightarrow> True | c # cs \<Rightarrow> canon c \<noteq> canon 115))"

definition quantity_at :: "ustring \<Rightarrow> ustring \<Rightarrow> nat" where
  \<comment> \<open>the length of the digits, the white space and the word the text starts with, 0 when
     it does not start with a quantity of that word\<close>
  "quantity_at w xs =
     (let ds = takeWhile is_digit xs;
          ws = takeWhile is_space (dropWhile is_digit xs);
          r = dropWhile is_space (dropWhile is_digit xs)
      in if ds \<noteq> [] \<and> word_follows w r then length ds + length ws + length w else 0)"

function pluralize :: "ustring \<Rightarrow> ustring \<Rightarrow> ustring" where
  "pluralize w xs =
     (case xs of
        [] \<Rightarrow> []
      | c # cs \<Rightarrow>
          if quantity_at w xs = 0 then c # pluralize w cs
          else take (quantity_at w xs) xs
               @ (if reads_as_one (takeWhile is_digit xs) then [] else [115])
               @ pluralize w (drop (quantity_at w xs) xs))"
  by pat_completeness auto
termination
  by (relation "measure (\<lambda>(w, xs). length xs)") auto

declare pluralize.simps [simp del]

definition spec_plurals :: "ustring \<Rightarrow> ustring" where
  "spec_plurals t =
     pluralize (ascii ''ounce'') (pluralize (ascii ''tablespoon'') (pluralize (ascii ''teaspoon'') t))"


section \<open>The host: network, random numbers, errors\<close>

datatype js_error =
    Error ustring          \<comment> \<open>\<open>new Error(message)\<close>\<close>
  | TypeError ustring      \<comment> \<open>a rejected \<open>fetch\<close>, a property read on \<open>undefined\<close> or \<open>null\<close>\<close>
  | SyntaxError ustring    \<comment> \<open>\<open>response.json()\<close> on a body that is not JSON\<close>
  | URIError ustring       \<comment> \<open>\<open>encodeURIComponent\<close> on a lone surrogate\<close>

text \<open>
  What \<open>await fetch(url)\<close> followed by \<open>response.json()\<close> can give: the fetch is rejected, or
  it resolves to a response with \<open>ok\<close>, \<open>statusText\<close> and a body that parses or not.
\<close>

datatype 'a fetched =
    Rejects js_error
  | Responds bool ustring "js_error + 'a"

text \<open>
  Modelled from the spec: the types \<open>MealResponse\<close>, \<open>MealDetailResponse\<close>, \<open>Recipe\<close> and
  \<open>Ingredient\<close>, which the code imports from \<open>types/recipe\<close>. The listing is a list of
  \<open>{id, name, thumbnail}\<close>; a detail record has up to 20 ingredient/measure slot pairs,
  instructions, category, area, an optional video link and optional tags; a recipe has
  the fields of the data model. The field names are the ones the code reads. A response
  without records can carry \<open>meals: null\<close>, which the code expects of the listing
  (\<open>!desserts.meals\<close>); the lookup answers in the same shape, so \<open>meals\<close> is an option in
  both responses, although the lookup indexes it as it is (\<open>data.meals[0]\<close>).
\<close>

record meal_summary =
  sum_idMeal :: ustring
  sum_strMeal :: ustring
  sum_strMealThumb :: ustring

record meal_response =
  list_meals :: "meal_summary list option"

record meal_detail =
  idMeal :: ustring
  strMeal :: ustring
  strMealThumb :: "ustring option"
  strInstructions :: ustring
  strCategory :: ustring
  strArea :: "ustring option"
  strYoutube :: "ustring option"
  strTags :: "ustring option"
  strIngredient :: "nat \<Rightarrow> ustring option"   \<comment> \<open>\<open>strIngredient1\<close> ... \<open>strIngredient20\<close>\<close>
  strMeasure :: "nat \<Rightarrow> ustring option"      \<comment> \<open>\<open>strMeasure1\<close> ... \<open>strMeasure20\<close>\<close>

record meal_detail_response =
  detail_meals :: "meal_detail list option"

record ingredient =
  ing_name :: ustring
  ing_measure :: ustring

record recipe =
  rec_id :: ustring
  rec_name :: ustring
  rec_image :: ustring
  rec_instructions :: ustring
  rec_ingredients :: "ingredient list"
  rec_category :: ustring
  rec_area :: "ustring option"
  rec_youtubeUrl :: "ustring option"
  rec_tags :: "ustring list option"

text \<open>
  The answers of Wikimedia Commons, as far as the code reads them: \<open>data.query?.search\<close>
  (absent, or a list of results with a \<open>title\<close>), and \<open>imageData.query?.pages\<close> (absent, or
  pages whose first one has an \<open>imageinfo[0]\<close> or not).
\<close>

record search_result =
  title :: "ustring option"

record search_data =
  query_search :: "search_result list option"

record image_info =
  thumburl :: "ustring option"
  url :: "ustring option"

datatype info_data = NoPages | Pages "image_info option"

text \<open>
  \<open>Math.random()\<close> is a double in \<open>[0, 1)\<close>. The doubles of that range are the numbers
  \<open>m / 2^k\<close> with a significand \<open>m < 2^53\<close>, an exponent \<open>k \<le> 1074\<close> and \<open>m < 2^k\<close>
  (the subnormal ones included); a double is kept as such a pair.
\<close>

typedef unit_double =
  "{mk :: nat \<times> nat. fst mk < 2 ^ 53 \<and> fst mk < 2 ^ snd mk \<and> snd mk \<le> 1074}"
  by (rule exI [of _ "(0, 0)"]) simp

definition significand :: "unit_double \<Rightarrow> nat" where
  "significand r = fst (Rep_unit_double r)"

definition exponent :: "unit_double \<Rightarrow> nat" where
  "exponent r = snd (Rep_unit_double r)"

definition double_value :: "unit_double \<Rightarrow> real" where
  "double_value r = real (significand r) / 2 ^ exponent r"

text \<open>
  The product \<open>Math.random() * n\<close> of a double \<open>m / 2^k\<close> and the length \<open>n\<close> of an array
  (below \<open>2^32\<close>, so a double as it is) is the double nearest to \<open>m * n / 2^k\<close>, the one
  with the even significand when two are equally near: the numerator \<open>m * n\<close> is rounded
  to 53 significant bits. The product is below \<open>2^32\<close> and, when it is rounded at all, at
  least \<open>2^53 / 2^1074\<close>, so it neither overflows nor is subnormal. \<open>Math.floor\<close> of the
  double \<open>N / 2^k\<close> is \<open>N div 2^k\<close>.
\<close>

fun excess_bits :: "nat \<Rightarrow> nat" where
  \<comment> \<open>the number of bits of \<open>N\<close> beyond 53\<close>
  "excess_bits N = (if N < 2 ^ 53 then 0 else Suc (excess_bits (N div 2)))"

declare excess_bits.simps [simp del]

definition round_to_double :: "nat \<Rightarrow> nat" where
  \<comment> \<open>round to nearest, ties to even\<close>
  "round_to_double N =
     (let s = excess_bits N; q = N div 2 ^ s; r = N mod 2 ^ s
      in if 2 ^ s < 2 * r \<or> (2 * r = 2 ^ s \<and> odd q) then (q + 1) * 2 ^ s else q * 2 ^ s)"

text \<open>
  Every effect of the program is a request to the host; the trace lists the requests made
  so far, and the host answers a request from the trace before it.
\<close>

datatype effect =
    FetchDesserts            \<comment> \<open>\<open>fetch(DESSERT_API_URL)\<close>\<close>
  | FetchDetail ustring      \<comment> \<open>\<open>fetch(MEAL_DETAIL_URL + mealId)\<close>\<close>
  | FetchSearch ustring      \<comment> \<open>the Commons search for a term\<close>
  | FetchImageInfo ustring   \<comment> \<open>the Commons image info of a file name\<close>
  | MathRandom

record host =
  toLowerCase :: "ustring \<Rightarrow> ustring"
  math_random :: "effect list \<Rightarrow> unit_double"
  get_desserts :: "effect list \<Rightarrow> meal_response fetched"
  get_detail :: "effect list \<Rightarrow> ustring \<Rightarrow> meal_detail_response fetched"
  get_search :: "effect list \<Rightarrow> ustring \<Rightarrow> js_error + search_data"
  get_imageinfo :: "effect list \<Rightarrow> ustring \<Rightarrow> js_error + info_data"

definition random_index :: "unit_double \<Rightarrow> nat \<Rightarrow> nat" where
  \<comment> \<open>\<open>Math.floor(Math.random() * n)\<close>\<close>
  "random_index r n = round_to_double (significand r * n) div 2 ^ exponent r"

fun well_formed :: "ustring \<Rightarrow> bool" where
  \<comment> \<open>no lone surrogate: \<open>encodeURIComponent\<close> throws a URIError otherwise\<close>
  "well_formed [] = True"
| "well_formed [c] = (\<not> (55296 \<le> c \<and> c \<le> 57343))"
| "well_formed (c # d # cs) =
     (if 55296 \<le> c \<and> c \<le> 56319 then 56320 \<le> d \<and> d \<le> 57343 \<and> well_formed cs
      else if 56320 \<le> c \<and> c \<le> 57343 then False
      else well_formed (d # cs))"

fun replace_str :: "ustring \<Rightarrow> ustring \<Rightarrow> ustring \<Rightarrow> ustring" where
  \<comment> \<open>\<open>s.replace(pat, rep)\<close> with a string pattern: the first occurrence\<close>
  "replace_str pat rep [] = (if pat = [] then rep else [])"
| "replace_str pat rep (c # cs) =
     (if is_prefix pat (c # cs) then rep @ drop (length pat) (c # cs)
      else c # replace_str pat rep cs)"

fun split_on :: "nat \<Rightarrow> ustring \<Rightarrow> ustring \<Rightarrow> ustring list" where
  \<comment> \<open>\<open>s.split(',')\<close>; the piece collected so far is \<open>acc\<close> (reversed)\<close>
  "split_on sep acc [] = [rev acc]"
| "split_on sep acc (c # cs) =
     (if c = sep then rev acc # split_on sep [] cs else split_on sep (c # acc) cs)"

section \<open>RecipeFetcher: fetchDessertRecipes\<close>

definition fetchDessertRecipes :: "host \<Rightarrow> effect list \<Rightarrow> (js_error + meal_response) \<times> effect list" where
  "fetchDessertRecipes h t =
     (case get_desserts h t of
        Rejects e \<Rightarrow> (Inl e, t @ [FetchDesserts])
      | Responds ok statusText body \<Rightarrow>
          if \<not> ok
          then (Inl (Error (ascii ''Failed to fetch dessert recipes: '' @ statusText)),
                t @ [FetchDesserts])
          else (body, t @ [FetchDesserts]))"

section \<open>ImageResolver: getWikimediaImage\<close>

definition special_re :: regex where
  \<comment> \<open>\<open>/[^\w\s]/g\<close>\<close>
  "special_re = Class (\<lambda>c. \<not> is_word c \<and> \<not> is_space c)"

definition spaces_re :: regex where
  \<comment> \<open>\<open>/\s+/g\<close>\<close>
  "spaces_re = Plus (Class is_space)"

definition bad_ext_re :: regex where
  \<comment> \<open>\<open>/\.(svg|pdf|txt)$/i\<close>\<close>
  "bad_ext_re =
     Cat (Lit 46)
       (Cat (Group (Alt (Str (ascii ''svg'') Eps) (Alt (Str (ascii ''pdf'') Eps) (Str (ascii ''txt'') Eps))))
         Eol)"

definition fallbackImages :: "ustring list" where
  "fallbackImages =
     [ascii ''https://upload.wikimedia.org/wikipedia/commons/thumb/6/6d/Good_Food_Display_-_NCI_Visuals_Online.jpg/800px-Good_Food_Display_-_NCI_Visuals_Online.jpg'',
      ascii ''https://upload.wikimedia.org/wikipedia/commons/thumb/5/5b/Chocolate_cake.jpg/800px-Chocolate_cake.jpg'',
      ascii ''https://upload.wikimedia.org/wikipedia/commons/thumb/d/d3/Desserts.jpg/800px-Desserts.jpg'',
      ascii ''https://upload.wikimedia.org/wikipedia/commons/thumb/f/f1/2ChocolateCake.jpg/800px-2ChocolateCake.jpg'']"

definition image_url_of :: "image_info option \<Rightarrow> ustring option" where
  \<comment> \<open>\<open>imageInfo?.thumburl || imageInfo?.url\<close>\<close>
  "image_url_of imageInfo =
     (case imageInfo of
        None \<Rightarrow> None
      | Some ii \<Rightarrow>
          (case thumburl ii of
             Some u \<Rightarrow> if u \<noteq> [] then Some u else url ii
           | None \<Rightarrow> url ii))"

text \<open>
  The inner loop, over the results of one search. The outcome is \<open>Inl\<close> when something
  throws (the \<open>catch\<close> of the caller takes it), \<open>Inr (Some u)\<close> for \<open>return u\<close>, and
  \<open>Inr None\<close> when the loop ends.
\<close>

fun try_results ::
  "host \<Rightarrow> effect list \<Rightarrow> search_result list \<Rightarrow> (js_error + ustring option) \<times> effect list" where
  "try_results h t [] = (Inr None, t)"
| "try_results h t (result # later) =
     (case title result of
        None \<Rightarrow> (Inl (TypeError (ascii ''title is undefined'')), t)
      | Some ttl \<Rightarrow>
          (let fileName = replace_str (ascii ''File:'') [] ttl in
           if test_from bad_ext_re True None fileName then try_results h t later
           else if \<not> well_formed fileName then (Inl (URIError (ascii ''URI malformed'')), t)
           else
             (case get_imageinfo h t fileName of
                Inl e \<Rightarrow> (Inl e, t @ [FetchImageInfo fileName])
              | Inr NoPages \<Rightarrow> try_results h (t @ [FetchImageInfo fileName]) later
              | Inr (Pages imageInfo) \<Rightarrow>
                  (case image_url_of imageInfo of
                     None \<Rightarrow> try_results h (t @ [FetchImageInfo fileName]) later
                   | Some imageUrl \<Rightarrow>
                       if imageUrl \<noteq> [] \<and> \<not> includes_str imageUrl (ascii ''svg'')
                       then (Inr (Some imageUrl), t @ [FetchImageInfo fileName])
                       else try_results h (t @ [FetchImageInfo fileName]) later))))"

text \<open>The outer loop, over the search variations.\<close>

fun try_searches ::
  "host \<Rightarrow> effect list \<Rightarrow> ustring list \<Rightarrow> (js_error + ustring option) \<times> effect list" where
  "try_searches h t [] = (Inr None, t)"
| "try_searches h t (search # later) =
     (if \<not> well_formed search then (Inl (URIError (ascii ''URI malformed'')), t)
      else
        (case get_search h t search of
           Inl e \<Rightarrow> (Inl e, t @ [FetchSearch search])
         | Inr data \<Rightarrow>
             (case query_search data of
                None \<Rightarrow> try_searches h (t @ [FetchSearch search]) later
              | Some results \<Rightarrow>
                  if length results > 0
                  then (case try_results h (t @ [FetchSearch search]) results of
                          (Inr None, t') \<Rightarrow> try_searches h t' later
                        | (Inr (Some u), t') \<Rightarrow> (Inr (Some u), t')
                        | (Inl e, t') \<Rightarrow> (Inl e, t'))
                  else try_searches h (t @ [FetchSearch search]) later)))"

definition searchTerm_of :: "host \<Rightarrow> ustring \<Rightarrow> ustring" where
  "searchTerm_of h recipeName =
     trim (replace_g spaces_re False (const_repl [32])
            (replace_g special_re False (const_repl []) (toLowerCase h recipeName)))"

definition searchVariations :: "ustring \<Rightarrow> ustring list" where
  "searchVariations searchTerm =
     [searchTerm @ ascii '' dessert'', searchTerm @ ascii '' cake'',
      searchTerm @ ascii '' food'', searchTerm]"

definition getWikimediaImage :: "host \<Rightarrow> effect list \<Rightarrow> ustring \<Rightarrow> (js_error + ustring) \<times> effect list" where
  "getWikimediaImage h t recipeName =
     (case try_searches h t (searchVariations (searchTerm_of h recipeName)) of
        (Inr (Some imageUrl), t') \<Rightarrow> (Inr imageUrl, t')
      | (Inr None, t') \<Rightarrow>
          (Inr (fallbackImages ! random_index (math_random h t') (length fallbackImages)),
           t' @ [MathRandom])
      | (Inl e, t') \<Rightarrow>
          (Inr (fallbackImages ! random_index (math_random h t') (length fallbackImages)),
           t' @ [MathRandom]))"

section \<open>RecipeFetcher: fetchRecipeDetails, getRandomDessertRecipe\<close>

definition non_blank :: "ustring option \<Rightarrow> bool" where
  \<comment> \<open>\<open>x && x.trim()\<close> as a condition\<close>
  "non_blank x = (case x of None \<Rightarrow> False | Some s \<Rightarrow> s \<noteq> [] \<and> trim s \<noteq> [])"

definition measure_of :: "ustring option \<Rightarrow> ustring" where
  \<comment> \<open>\<open>measure?.trim() || ''\<close>\<close>
  "measure_of x = (case x of None \<Rightarrow> [] | Some s \<Rightarrow> trim s)"

definition push_slot :: "meal_detail \<Rightarrow> nat \<Rightarrow> ingredient list \<Rightarrow> ingredient list" where
  \<comment> \<open>the body of the loop\<close>
  "push_slot meal i ingredients =
     (case strIngredient meal i of
        None \<Rightarrow> ingredients
      | Some ingredient \<Rightarrow>
          if non_blank (Some ingredient)
          then ingredients @
                 [\<lparr>ing_name = trim ingredient,
                   ing_measure = expandUnits (measure_of (strMeasure meal i))\<rparr>]
          else ingredients)"

function ingredient_loop :: "meal_detail \<Rightarrow> nat \<Rightarrow> ingredient list \<Rightarrow> ingredient list" where
  \<comment> \<open>\<open>for (let i = 1; i <= 20; i++)\<close>, from the current \<open>i\<close> on\<close>
  "ingredient_loop meal i ingredients =
     (if i \<le> 20 then ingredient_loop meal (i + 1) (push_slot meal i ingredients)
      else ingredients)"
  by pat_completeness auto
termination
  by (relation "measure (\<lambda>(meal, i, ingredients). 21 - i)") auto

declare ingredient_loop.simps [simp del]

definition ingredients_of :: "meal_detail \<Rightarrow> ingredient list" where
  "ingredients_of meal = ingredient_loop meal 1 []"

definition youtubeUrl_of :: "ustring option \<Rightarrow> ustring option" where
  \<comment> \<open>\<open>meal.strYoutube || undefined\<close>\<close>
  "youtubeUrl_of x = (case x of None \<Rightarrow> None | Some s \<Rightarrow> if s = [] then None else Some s)"

definition tags_of :: "ustring option \<Rightarrow> ustring list option" where
  \<comment> \<open>\<open>meal.strTags ? meal.strTags.split(',').map(tag => tag.trim()) : undefined\<close>\<close>
  "tags_of x =
     (case x of
        None \<Rightarrow> None
      | Some s \<Rightarrow> if s = [] then None else Some (map trim (split_on 44 [] s)))"

definition provided_thumb :: "ustring option \<Rightarrow> ustring option" where
  \<comment> \<open>\<open>meal.strMealThumb && meal.strMealThumb.trim() ? meal.strMealThumb : ...\<close>: the
     thumbnail when the condition holds\<close>
  "provided_thumb x = (if non_blank x then x else None)"

definition build_recipe :: "meal_detail \<Rightarrow> ustring \<Rightarrow> recipe" where
  "build_recipe meal recipeImage =
     \<lparr>rec_id = idMeal meal, rec_name = strMeal meal, rec_image = recipeImage,
      rec_instructions = strInstructions meal, rec_ingredients = ingredients_of meal,
      rec_category = strCategory meal, rec_area = strArea meal,
      rec_youtubeUrl = youtubeUrl_of (strYoutube meal), rec_tags = tags_of (strTags meal)\<rparr>"

definition fetchRecipeDetails :: "host \<Rightarrow> effect list \<Rightarrow> ustring \<Rightarrow> (js_error + recipe) \<times> effect list" where
  "fetchRecipeDetails h t mealId =
     (case get_detail h t mealId of
        Rejects e \<Rightarrow> (Inl e, t @ [FetchDetail mealId])
      | Responds ok statusText body \<Rightarrow>
          if \<not> ok
          then (Inl (Error (ascii ''Failed to fetch recipe details: '' @ statusText)),
                t @ [FetchDetail mealId])
          else
            (case body of
               Inl e \<Rightarrow> (Inl e, t @ [FetchDetail mealId])
             | Inr data \<Rightarrow>
                 (case detail_meals data of
                    None \<Rightarrow>
                      (Inl (TypeError (ascii ''Cannot read properties of null (reading 0)'')),
                       t @ [FetchDetail mealId])
                  | Some [] \<Rightarrow>
                      (Inl (Error (ascii ''Recipe not found'')), t @ [FetchDetail mealId])
                  | Some (meal # others) \<Rightarrow>
                      (case provided_thumb (strMealThumb meal) of
                         Some recipeImage \<Rightarrow>
                           (Inr (build_recipe meal recipeImage), t @ [FetchDetail mealId])
                       | None \<Rightarrow>
                           (case getWikimediaImage h (t @ [FetchDetail mealId]) (strMeal meal) of
                              (Inl e, t') \<Rightarrow> (Inl e, t')
                            | (Inr recipeImage, t') \<Rightarrow>
                                (Inr (build_recipe meal recipeImage), t'))))))"

definition getRandomDessertRecipe :: "host \<Rightarrow> effect list \<Rightarrow> (js_error + recipe) \<times> effect list" where
  "getRandomDessertRecipe h t =
     (case fetchDessertRecipes h t of
        (Inl e, t') \<Rightarrow> (Inl e, t')
      | (Inr desserts, t') \<Rightarrow>
          (case list_meals desserts of
             None \<Rightarrow> (Inl (Error (ascii ''No dessert recipes found'')), t')
           | Some meals \<Rightarrow>
               if length meals = 0 then (Inl (Error (ascii ''No dessert recipes found'')), t')
               else
                 (let randomIndex = random_index (math_random h t') (length meals)
                  in if randomIndex < length meals
                     then fetchRecipeDetails h (t' @ [MathRandom])
                            (sum_idMeal (meals ! randomIndex))
                     else (Inl (TypeError (ascii ''Cannot read properties of undefined (reading idMeal)'')),
                           t' @ [MathRandom]))))"

section \<open>Two hosts for concrete runs\<close>

definition ascii_lower :: "ustring \<Rightarrow> ustring" where
  "ascii_lower s = map (\<lambda>c. if is_upper c then c + 32 else c) s"

definition half :: unit_double where
  \<comment> \<open>the double 0.5\<close>
  "half = Abs_unit_double (1, 1)"

text \<open>A host without network: every fetch is rejected.\<close>

definition offline_host :: host where
  "offline_host =
     \<lparr>toLowerCase = ascii_lower,
      math_random = (\<lambda>t. half),
      get_desserts = (\<lambda>t. Rejects (TypeError (ascii ''Failed to fetch''))),
      get_detail = (\<lambda>t mealId. Rejects (TypeError (ascii ''Failed to fetch''))),
      get_search = (\<lambda>t term. Inl (TypeError (ascii ''Failed to fetch''))),
      get_imageinfo = (\<lambda>t fileName. Inl (TypeError (ascii ''Failed to fetch'')))\<rparr>"

text \<open>
  A host with a catalogue of five desserts. The record of the third one has three
  ingredients, in the slots 1, 3 and 4 (slot 2 is blank), and no thumbnail.
\<close>

definition demo_meal :: meal_detail where
  "demo_meal =
     \<lparr>idMeal = ascii ''52893'', strMeal = ascii ''Apple & Blackberry Crumble'',
      strMealThumb = None,
      strInstructions = ascii ''1. Mix flour. 2. Bake at 350.'',
      strCategory = ascii ''Dessert'', strArea = Some (ascii ''British''),
      strYoutube = Some [], strTags = Some (ascii ''Pudding, Fruity''),
      strIngredient =
        (\<lambda>i. if i = 1 then Some (ascii ''Apples '')
             else if i = 2 then Some (ascii ''  '')
             else if i = 3 then Some (ascii ''Butter'')
             else if i = 4 then Some (ascii '' Sugar'')
             else if i \<le> 10 then Some [] else None),
      strMeasure =
        (\<lambda>i. if i = 1 then Some (ascii ''2 lbs '')
             else if i = 3 then Some (ascii ''2 tbsp'')
             else None)\<rparr>"

definition demo_catalogue :: "meal_summary list" where
  "demo_catalogue =
     [\<lparr>sum_idMeal = ascii ''52891'', sum_strMeal = ascii ''Blackberry Fool'',
       sum_strMealThumb = ascii ''https://www.themealdb.com/images/media/meals/52891.jpg''\<rparr>,
      \<lparr>sum_idMeal = ascii ''52892'', sum_strMeal = ascii ''Treacle Tart'',
       sum_strMealThumb = ascii ''https://www.themealdb.com/images/media/meals/52892.jpg''\<rparr>,
      \<lparr>sum_idMeal = ascii ''52893'', sum_strMeal = ascii ''Apple & Blackberry Crumble'',
       sum_strMealThumb = ascii ''https://www.themealdb.com/images/media/meals/52893.jpg''\<rparr>,
      \<lparr>sum_idMeal = ascii ''52894'', sum_strMeal = ascii ''Battenberg Cake'',
       sum_strMealThumb = ascii ''https://www.themealdb.com/images/media/meals/52894.jpg''\<rparr>,
      \<lparr>sum_idMeal = ascii ''52895'', sum_strMeal = ascii ''Eccles Cakes'',
       sum_strMealThumb = ascii ''https://www.themealdb.com/images/media/meals/52895.jpg''\<rparr>]"

definition demo_host :: host where
  "demo_host =
     \<lparr>toLowerCase = ascii_lower,
      math_random = (\<lambda>t. half),
      get_desserts =
        (\<lambda>t. Responds True (ascii ''OK'') (Inr \<lparr>list_meals = Some demo_catalogue\<rparr>)),
      get_detail =
        (\<lambda>t mealId. Responds True (ascii ''OK'')
           (Inr \<lparr>detail_meals = (if mealId = ascii ''52893'' then Some [demo_meal] else None)\<rparr>)),
      get_search =
        (\<lambda>t term. Inr \<lparr>query_search =
           Some [\<lparr>title = Some (ascii ''File:Crumble.svg'')\<rparr>,
                 \<lparr>title = Some (ascii ''File:Apple crumble.jpg'')\<rparr>]\<rparr>),
      get_imageinfo =
        (\<lambda>t fileName. Inr (Pages (Some
           \<lparr>thumburl = Some (ascii ''https://upload.wikimedia.org/Apple_crumble.jpg''),
            url = None\<rparr>)))\<rparr>"

text \<open>The same catalogue, emptied.\<close>

definition empty_host :: host where
  "empty_host =
     demo_host\<lparr>get_desserts :=
       (\<lambda>t. Responds True (ascii ''OK'') (Inr \<lparr>list_meals = Some []\<rparr>))\<rparr>"

section \<open>Evaluation on concrete inputs\<close>

lemmas char_class_defs =
  is_digit_def is_upper_def is_lower_def is_word_def is_space_def canon_def

lemmas regex_eval =
  ascii_def match_at_def match_g_def replace_g_def replace_first_def split_re_def
  at_word_boundary_def trim_def endsWith_def star_loop.simps matches_from.simps
  replace_from.simps split_from.simps

lemmas segmenter_defs =
  getInstructionSteps_def numbered_re_def marker_re_def sentence_re_def strip_marker_def
  add_period_def fallback_steps_def

lemmas expander_defs =
  expandUnits_def run_passes_def plural_passes_def unit_passes_def fraction_passes_def
  plural_re_def metric_re_def floz_re_def unit_re_def fraction_re_def plural_repl_def
  const_repl_def parseInt_def

section \<open>Soundness of the matcher\<close>

lemma star_loop_sound:
  assumes step: "\<And>k st v. step k st = Some v \<Longrightarrow>
                   \<exists>st' w. k st' = Some v \<and> rest st = w @ rest st' \<and> w \<in> A"
  shows "star_loop step g k n st = Some v \<Longrightarrow>
           \<exists>st' w. k st' = Some v \<and> rest st = w @ rest st' \<and> w \<in> star_lang A"
proof (induction n arbitrary: st v)
  case 0
  then have "k st = Some v" by (simp add: star_loop.simps)
  then show ?case using star_lang_Nil by fastforce
next
  case (Suc n)
  let ?k' = "\<lambda>st'. if length (rest st') < length (rest st) then star_loop step g k n st' else None"
  from Suc.prems have "k st = Some v \<or> step ?k' st = Some v"
    by (auto simp: star_loop.simps split: if_splits option.splits)
  then show ?case
  proof
    assume "k st = Some v"
    then show ?thesis using star_lang_Nil by fastforce
  next
    assume "step ?k' st = Some v"
    from step [OF this] obtain st1 w1 where
      a: "?k' st1 = Some v" "rest st = w1 @ rest st1" "w1 \<in> A" by blast
    from a(1) have "star_loop step g k n st1 = Some v" by (simp split: if_splits)
    from Suc.IH [OF this] obtain st2 w2 where
      b: "k st2 = Some v" "rest st1 = w2 @ rest st2" "w2 \<in> star_lang A" by blast
    have "rest st = (w1 @ w2) @ rest st2" using a(2) b(2) by simp
    moreover have "w1 @ w2 \<in> star_lang A" using a(3) b(3) by (rule star_lang_Step)
    ultimately show ?thesis using b(1) by blast
  qed
qed

lemma m_sound:
  "m r ci k st = Some v \<Longrightarrow> \<exists>st' w. k st' = Some v \<and> rest st = w @ rest st' \<and> w \<in> lang r ci"
proof (induction r arbitrary: k st v)
  case (Lit c)
  then show ?case by (cases "rest st") (auto split: if_splits)
next
  case (Class P)
  then show ?case by (cases "rest st") (auto split: if_splits)
next
  case (Cat r1 r2)
  from Cat.prems have "m r1 ci (m r2 ci k) st = Some v" by simp
  from Cat.IH(1) [OF this] obtain st1 w1 where
    a: "m r2 ci k st1 = Some v" "rest st = w1 @ rest st1" "w1 \<in> lang r1 ci" by blast
  from Cat.IH(2) [OF a(1)] obtain st2 w2 where
    b: "k st2 = Some v" "rest st1 = w2 @ rest st2" "w2 \<in> lang r2 ci" by blast
  have "rest st = (w1 @ w2) @ rest st2" using a(2) b(2) by simp
  moreover have "w1 @ w2 \<in> lang (Cat r1 r2) ci" using a(3) b(3) by auto
  ultimately show ?case using b(1) by blast
next
  case (Alt r1 r2)
  from Alt.prems have "m r1 ci k st = Some v \<or> m r2 ci k st = Some v"
    by (auto split: option.splits)
  then show ?case using Alt.IH by fastforce
next
  case (Star r)
  then show ?case using star_loop_sound [of "m r ci" "lang r ci"] by fastforce
next
  case (LazyStar r)
  then show ?case using star_loop_sound [of "m r ci" "lang r ci"] by fastforce
next
  case (Opt r)
  let ?k' = "\<lambda>st'. if length (rest st') < length (rest st) then k st' else None"
  from Opt.prems have "k st = Some v \<or> m r ci ?k' st = Some v"
    by (auto split: option.splits)
  then show ?case
  proof
    assume "k st = Some v"
    then show ?thesis by fastforce
  next
    assume "m r ci ?k' st = Some v"
    from Opt.IH [OF this] obtain st1 w1 where
      a: "?k' st1 = Some v" "rest st = w1 @ rest st1" "w1 \<in> lang r ci" by blast
    from a(1) have "k st1 = Some v" by (simp split: if_splits)
    then show ?thesis using a by auto
  qed
next
  case (Ahead r)
  then show ?case by (fastforce split: option.splits)
next
  case (NotAhead r)
  then show ?case by (fastforce split: option.splits)
next
  case WordB
  then show ?case by (fastforce split: if_splits)
next
  case Bol
  then show ?case by (fastforce split: if_splits)
next
  case Eol
  then show ?case by (fastforce split: if_splits)
next
  case (Group r)
  from Group.IH [OF Group.prems [simplified]] show ?case by fastforce
next
  case Eps
  then show ?case by fastforce
qed

lemma match_at_lang:
  assumes "match_at r ci p xs = Some (n, g)"
  shows "n \<le> length xs \<and> take n xs \<in> lang r ci"
proof -
  from assms obtain st where st: "m r ci Some (MState p xs None) = Some st"
    and n: "n = length xs - length (rest st)"
    by (auto simp: match_at_def split: option.splits)
  from m_sound [OF st] obtain w where w: "xs = w @ rest st" "w \<in> lang r ci" by auto
  then have "n = length w" using n by simp
  then show ?thesis using w by (metis append_eq_conv_conj le_add1 length_append)
qed

lemma matches_from_lang:
  "x \<in> set (matches_from r ci p xs) \<Longrightarrow> x \<in> lang r ci"
proof (induction r ci p xs rule: matches_from.induct)
  case (1 r ci p xs)
  note unfold = matches_from.simps [of r ci p xs]
  show ?case
  proof (cases "match_at r ci p xs")
    case None
    with "1.prems" obtain c cs where xs: "xs = c # cs"
      and x: "x \<in> set (matches_from r ci (Some c) cs)"
      unfolding unfold by (cases xs) auto
    from "1.IH"(1) [OF None xs x] show ?thesis .
  next
    case (Some ng)
    obtain n g where ng: "ng = (n, g)" by (cases ng)
    have l: "take n xs \<in> lang r ci" using match_at_lang Some ng by blast
    show ?thesis
    proof (cases "x = take n xs")
      case True
      then show ?thesis using l by simp
    next
      case False
      show ?thesis
      proof (cases "n = 0")
        case True
        with "1.prems" False Some ng obtain c cs where xs: "xs = c # cs"
          and x: "x \<in> set (matches_from r ci (Some c) cs)"
          unfolding unfold by (cases xs) auto
        from "1.IH"(2) [OF Some ng [symmetric] True xs x] show ?thesis .
      next
        case n: False
        with "1.prems" False Some ng
        have x: "x \<in> set (matches_from r ci (Some (last (take n xs))) (drop n xs))"
          unfolding unfold by auto
        from "1.IH"(3) [OF Some ng [symmetric] n x] show ?thesis .
      qed
    qed
  qed
qed

lemma star_lang_class: "w \<in> star_lang {[x] | x. P x} \<Longrightarrow> \<forall>x\<in>set w. P x"
  by (induction rule: star_lang.induct) auto


lemma star_loop_class_max:
  assumes step_Cons: "\<And>k p x zs c. step k (MState p (x # zs) c)
                        = (if P x then k (MState (Some x) zs c) else None)"
    and step_Nil: "\<And>k p c. step k (MState p [] c) = None"
  shows "\<forall>x\<in>set xs. P x \<Longrightarrow> (case ys of [] \<Rightarrow> True | y # ys' \<Rightarrow> \<not> P y) \<Longrightarrow>
         k (MState (prev_after p xs) ys c) = Some v \<Longrightarrow> length xs \<le> n \<Longrightarrow>
           star_loop step True k n (MState p (xs @ ys) c) = Some v"
proof (induction xs arbitrary: p n)
  case Nil
  then have k: "k (MState p ys c) = Some v" by (simp add: prev_after_def)
  show ?case
  proof (cases n)
    case 0
    then show ?thesis using k by (simp add: star_loop.simps)
  next
    case (Suc n')
    then show ?thesis using k Nil.prems(2)
      by (cases ys) (auto simp: star_loop.simps step_Cons step_Nil)
  qed
next
  case (Cons x xs)
  then obtain n' where n: "n = Suc n'" "length xs \<le> n'" by (cases n) auto
  have "prev_after p (x # xs) = prev_after (Some x) xs" by (simp add: prev_after_def)
  with Cons.prems have k: "k (MState (prev_after (Some x) xs) ys c) = Some v" by simp
  have all: "\<forall>x\<in>set xs. P x" and px: "P x" using Cons.prems(1) by auto
  have "star_loop step True k n' (MState (Some x) (xs @ ys) c) = Some v"
    using Cons.IH [OF all Cons.prems(2) k n(2)] .
  then show ?case using px n by (simp add: star_loop.simps step_Cons)
qed

lemma m_star_class_max:
  assumes "\<forall>x\<in>set xs. P x" and "case ys of [] \<Rightarrow> True | y # ys' \<Rightarrow> \<not> P y"
    and "k (MState (prev_after p xs) ys c) = Some v"
  shows "m (Star (Class P)) ci k (MState p (xs @ ys) c) = Some v"
proof -
  have "star_loop (m (Class P) ci) True k (length (xs @ ys)) (MState p (xs @ ys) c) = Some v"
    by (rule star_loop_class_max [where P = P]) (use assms in simp_all)
  then show ?thesis by simp
qed

lemma prev_after_Cons: "prev_after p (x # xs) = prev_after (Some x) xs"
  by (simp add: prev_after_def)

lemma star_loop_class_fail:
  assumes step_Cons: "\<And>k p x zs c. step k (MState p (x # zs) c)
                        = (if P x then k (MState (Some x) zs c) else None)"
    and step_Nil: "\<And>k p c. step k (MState p [] c) = None"
  shows "\<forall>x\<in>set xs. P x \<Longrightarrow> (case ys of [] \<Rightarrow> True | y # ys' \<Rightarrow> \<not> P y) \<Longrightarrow>
         (\<And>i. i \<le> length xs \<Longrightarrow> k (MState (prev_after p (take i xs)) (drop i xs @ ys) c) = None) \<Longrightarrow>
           star_loop step True k n (MState p (xs @ ys) c) = None"
proof (induction xs arbitrary: p n)
  case Nil
  have k: "k (MState p ys c) = None" using Nil.prems(3) [of 0] by (simp add: prev_after_def)
  show ?case
  proof (cases n)
    case 0
    then show ?thesis using k by (simp add: star_loop.simps)
  next
    case (Suc n')
    then show ?thesis using k Nil.prems(2)
      by (cases ys) (auto simp: star_loop.simps step_Cons step_Nil)
  qed
next
  case (Cons x xs)
  have k: "k (MState p ((x # xs) @ ys) c) = None"
    using Cons.prems(3) [of 0] by (simp add: prev_after_def)
  show ?case
  proof (cases n)
    case 0
    then show ?thesis using k by (simp add: star_loop.simps)
  next
    case (Suc n')
    have all: "\<forall>x\<in>set xs. P x" and px: "P x" using Cons.prems(1) by auto
    have sh: "k (MState (prev_after (Some x) (take i xs)) (drop i xs @ ys) c) = None"
      if "i \<le> length xs" for i
      using Cons.prems(3) [of "Suc i"] that by (simp add: prev_after_Cons)
    have "star_loop step True k n' (MState (Some x) (xs @ ys) c) = None"
      using Cons.IH [OF all Cons.prems(2) sh] by simp
    then show ?thesis using px k Suc by (simp add: star_loop.simps step_Cons)
  qed
qed

lemma m_star_class_fail:
  assumes "\<forall>x\<in>set xs. P x" and "case ys of [] \<Rightarrow> True | y # ys' \<Rightarrow> \<not> P y"
    and "\<And>i. i \<le> length xs \<Longrightarrow> k (MState (prev_after p (take i xs)) (drop i xs @ ys) c) = None"
  shows "m (Star (Class P)) ci k (MState p (xs @ ys) c) = None"
proof -
  have "star_loop (m (Class P) ci) True k (length (xs @ ys)) (MState p (xs @ ys) c) = None"
    by (rule star_loop_class_fail [where P = P]) (use assms in simp_all)
  then show ?thesis by simp
qed


section \<open>StepSegmenter\<close>

text \<open>
  C1. The specification's example for the numbered-marker strategy,
  \<open>segment("1. Mix flour. 2. Bake at 350.")\<close>, does not return
  \<open>["Mix flour.", "Bake at 350."]\<close>: the second step loses its temperature, because the
  text of a step cannot cross a digit. A numbered step whose prose holds a digit that is
  not followed by digits and a period is lost altogether, as the step \<open>1.\<close> of the second
  input.
\<close>

theorem getInstructionSteps_numbered_example:
  "getInstructionSteps (ascii ''1. Mix flour. 2. Bake at 350.'')
     = [ascii ''Mix flour.'', ascii ''Bake at'']
   \<and> getInstructionSteps (ascii ''1. Add 2 eggs. 2. Bake. 3. Eat.'')
     = [ascii ''Bake.'', ascii ''Eat.'']"
  by (simp add: segmenter_defs char_class_defs regex_eval)

lemma numbered_shape:
  assumes "w \<in> lang numbered_re False"
  shows "\<exists>ds nd. w = ds @ 46 # nd \<and> ds \<noteq> [] \<and> (\<forall>d\<in>set ds. is_digit d)
           \<and> (\<forall>c\<in>set nd. \<not> is_digit c)"
proof -
  from assms obtain d ds sp nd where w: "w = ([d] @ ds) @ [46] @ sp @ nd @ []"
    and d: "is_digit d" and ds: "ds \<in> star_lang {[x] | x. is_digit x}"
    and sp: "sp \<in> star_lang {[x] | x. is_space x}"
    and nd: "nd \<in> star_lang {[x] | x. \<not> is_digit x}"
    by (auto simp: numbered_re_def)
  have "\<forall>x\<in>set sp. \<not> is_digit x"
    using star_lang_class [OF sp] by (auto simp: is_space_def is_digit_def)
  moreover have "\<forall>x\<in>set nd. \<not> is_digit x" using star_lang_class [OF nd] by simp
  moreover have "\<forall>x\<in>set (d # ds). is_digit x" using star_lang_class [OF ds] d by simp
  ultimately show ?thesis using w
    by (intro exI [of _ "d # ds"] exI [of _ "sp @ nd"]) auto
qed

lemma match_at_marker:
  assumes "ds \<noteq> []" and "\<forall>d\<in>set ds. is_digit d"
  shows "match_at marker_re False None (ds @ 46 # nd)
           = Some (length ds + 1 + length (takeWhile is_space nd), None)"
proof -
  obtain d ds' where ds: "ds = d # ds'" using assms(1) by (cases ds) auto
  let ?fin = "MState (prev_after (Some 46) (takeWhile is_space nd)) (dropWhile is_space nd) None"
  have sp: "m (Star (Class is_space)) False Some (MState (Some 46) (takeWhile is_space nd @ dropWhile is_space nd) None)
              = Some ?fin"
    by (rule m_star_class_max [where k = Some])
       (auto dest: set_takeWhileD split: list.splits simp: dropWhile_eq_Cons_conv)
  have dot: "m (Cat (Lit 46) (Star (Class is_space))) False Some
               (MState (prev_after (Some d) ds') (46 # nd) None) = Some ?fin"
    using sp by simp
  have nondig: "case 46 # nd of [] \<Rightarrow> True | y # ys' \<Rightarrow> \<not> is_digit y"
    by (simp add: is_digit_def)
  have "m (Star (Class is_digit)) False (m (Cat (Lit 46) (Star (Class is_space))) False Some)
          (MState (Some d) (ds' @ 46 # nd) None) = Some ?fin"
    by (rule m_star_class_max [where k = "m (Cat (Lit 46) (Star (Class is_space))) False Some"
          and ys = "46 # nd"]) (use assms(2) ds nondig dot in simp_all)
  then have "m marker_re False Some (MState None (ds @ 46 # nd) None) = Some ?fin"
    using assms(2) ds by (simp add: marker_re_def)
  moreover have "length (ds @ 46 # nd) - length (dropWhile is_space nd)
                   = length ds + 1 + length (takeWhile is_space nd)"
  proof -
    have "length nd = length (takeWhile is_space nd) + length (dropWhile is_space nd)"
      by (metis length_append takeWhile_dropWhile_id)
    then show ?thesis by simp
  qed
  ultimately show ?thesis by (simp add: match_at_def)
qed

lemma strip_marker_numbered:
  assumes "ds \<noteq> []" and "\<forall>d\<in>set ds. is_digit d"
  shows "strip_marker (ds @ 46 # nd) = trim (dropWhile is_space nd)"
proof -
  obtain d ds' where ds: "ds = d # ds'" using assms(1) by (cases ds) auto
  have "drop (length ds + 1 + length (takeWhile is_space nd)) (ds @ 46 # nd) = dropWhile is_space nd"
  proof -
    have "ds @ 46 # nd = (ds @ 46 # takeWhile is_space nd) @ dropWhile is_space nd" by simp
    then show ?thesis
      by (metis add.commute append_eq_conv_conj length_Cons length_append plus_1_eq_Suc add_Suc_right add_Suc One_nat_def add.assoc)
  qed
  then have "replace_first marker_re False (\<lambda>mt g. []) (ds @ 46 # nd) = dropWhile is_space nd"
    using match_at_marker [OF assms, of nd] ds by (simp add: replace_first_def)
  then show ?thesis by (simp add: strip_marker_def)
qed

lemma set_trim: "set (trim s) \<subseteq> set s"
  unfolding trim_def by (metis set_dropWhileD set_rev subsetI)

text \<open>
  C10. Whenever the numbered-marker path is taken (the pattern finds at least two
  matches), no step that \<open>getInstructionSteps\<close> returns holds a decimal digit: every match
  is a run of digits, a period and a text without digits, and stripping the marker leaves
  that text, trimmed.
\<close>

theorem numbered_steps_have_no_digit:
  assumes "numbered_path instructions"
  shows "(\<forall>step\<in>set (getInstructionSteps instructions). \<forall>c\<in>set step. \<not> is_digit c)
       \<and> (\<forall>x\<in>set (matches_from numbered_re False None instructions).
            \<exists>ds nd. x = ds @ 46 # nd \<and> ds \<noteq> [] \<and> (\<forall>d\<in>set ds. is_digit d)
              \<and> (\<forall>c\<in>set nd. \<not> is_digit c)
              \<and> strip_marker x = trim (dropWhile is_space nd))"
proof -
  from assms obtain ms where ms: "match_g numbered_re False instructions = Some ms" "length ms > 1"
    by (auto simp: numbered_path_def split: option.splits)
  then have g: "getInstructionSteps instructions
                  = filter (\<lambda>step. length step > 0) (map strip_marker ms)"
    by (simp add: getInstructionSteps_def)
  have m: "ms = matches_from numbered_re False None instructions"
    using ms(1) by (auto simp: match_g_def split: list.splits)
  have shape: "\<exists>ds nd. x = ds @ 46 # nd \<and> ds \<noteq> [] \<and> (\<forall>d\<in>set ds. is_digit d)
              \<and> (\<forall>c\<in>set nd. \<not> is_digit c)
              \<and> strip_marker x = trim (dropWhile is_space nd)"
    if "x \<in> set ms" for x
  proof -
    from that have "x \<in> lang numbered_re False" using m matches_from_lang by blast
    from numbered_shape [OF this] obtain ds nd where
      s: "x = ds @ 46 # nd" "ds \<noteq> []" "\<forall>d\<in>set ds. is_digit d" "\<forall>c\<in>set nd. \<not> is_digit c"
      by blast
    then show ?thesis using strip_marker_numbered by blast
  qed
  have "\<forall>c\<in>set step. \<not> is_digit c" if "step \<in> set (getInstructionSteps instructions)" for step
  proof -
    from that obtain x where x: "x \<in> set ms" "step = strip_marker x" unfolding g by auto
    from shape [OF x(1)] obtain ds nd where
      s: "\<forall>c\<in>set nd. \<not> is_digit c" "strip_marker x = trim (dropWhile is_space nd)"
      by blast
    have "set step \<subseteq> set nd" using x(2) s(2) set_trim set_dropWhileD by fastforce
    with s(1) show ?thesis by blast
  qed
  then show ?thesis using shape m by blast
qed

theorem numbered_steps_have_no_digit_witness:
  "numbered_path (ascii ''1. Mix flour. 2. Bake at 350.'')
   \<and> getInstructionSteps (ascii ''1. Mix flour. 2. Bake at 350.'') \<noteq> []
   \<and> list_all (\<lambda>step. list_all (\<lambda>c. \<not> is_digit c) step)
        (getInstructionSteps (ascii ''1. Mix flour. 2. Bake at 350.''))"
proof -
  have p: "numbered_path (ascii ''1. Mix flour. 2. Bake at 350.'')"
    by (simp add: numbered_path_def segmenter_defs char_class_defs regex_eval)
  have n: "getInstructionSteps (ascii ''1. Mix flour. 2. Bake at 350.'') \<noteq> []"
    by (simp add: segmenter_defs char_class_defs regex_eval)
  show ?thesis
    using p n numbered_steps_have_no_digit [OF p, THEN conjunct1] by (simp add: list_all_iff)
qed

subsection \<open>The fallback strategy\<close>








subsection \<open>The split of the fallback strategy, pattern against description\<close>













section \<open>UnitExpander\<close>

lemma class_numeral:
  "is_digit (numeral k) = (48 \<le> (numeral k :: nat) \<and> (numeral k :: nat) \<le> 57)"
  "is_upper (numeral k) = (65 \<le> (numeral k :: nat) \<and> (numeral k :: nat) \<le> 90)"
  "is_lower (numeral k) = (97 \<le> (numeral k :: nat) \<and> (numeral k :: nat) \<le> 122)"
  "is_word (numeral k) = (is_digit (numeral k) \<or> is_upper (numeral k) \<or> is_lower (numeral k)
                            \<or> (numeral k :: nat) = 95)"
  "is_letter (numeral k) = (is_upper (numeral k) \<or> is_lower (numeral k))"
  "canon (numeral k) = (if is_lower (numeral k) then numeral k - 32 else numeral k)"
  by (simp_all add: is_digit_def is_upper_def is_lower_def is_word_def is_letter_def canon_def)

lemma is_space_numeral:
  "is_space (numeral k) =
     ((9 \<le> (numeral k :: nat) \<and> (numeral k :: nat) \<le> 13) \<or> (numeral k :: nat) = 32
      \<or> (numeral k :: nat) = 160 \<or> (numeral k :: nat) = 5760
      \<or> (8192 \<le> (numeral k :: nat) \<and> (numeral k :: nat) \<le> 8202)
      \<or> (numeral k :: nat) = 8232 \<or> (numeral k :: nat) = 8233 \<or> (numeral k :: nat) = 8239
      \<or> (numeral k :: nat) = 8287 \<or> (numeral k :: nat) = 12288 \<or> (numeral k :: nat) = 65279)"
  by (simp add: is_space_def)

lemma digit_not_letter: "is_digit x \<Longrightarrow> \<not> is_letter x"
  by (auto simp: is_digit_def is_letter_def is_upper_def is_lower_def)

lemma space_not_letter: "is_space x \<Longrightarrow> \<not> is_letter x"
  by (auto simp: is_space_def is_letter_def is_upper_def is_lower_def)

lemma space_not_word: "is_space x \<Longrightarrow> \<not> is_word x"
  by (auto simp: is_space_def is_word_def is_digit_def is_upper_def is_lower_def)

lemma space_not_digit: "is_space x \<Longrightarrow> \<not> is_digit x"
  by (auto simp: is_space_def is_digit_def)

lemma canon_letter: "is_letter c \<Longrightarrow> canon x = canon c \<Longrightarrow> is_letter x"
  by (auto simp: canon_def is_letter_def is_upper_def is_lower_def split: if_splits)

lemma lit_mismatch:
  "\<not> is_letter x \<Longrightarrow> is_letter c \<Longrightarrow> \<not> (if ci then canon x = canon c else x = c)"
  using canon_letter by auto

lemma m_Lit_nonletter:
  "\<not> is_letter x \<Longrightarrow> is_letter c \<Longrightarrow> m (Lit c) ci k (MState p (x # zs) g) = None"
  using lit_mismatch [of x c ci] by simp

lemma match_at_word_start:
  "\<not> is_letter x \<Longrightarrow> is_letter c \<Longrightarrow> match_at (Cat WordB (Cat (Lit c) r)) ci p (x # zs) = None"
  using lit_mismatch [of x c ci] by (simp add: match_at_def)

lemma replace_from_skip:
  assumes "\<And>x p zs. x \<in> set qs \<Longrightarrow> match_at r ci p (x # zs) = None"
  shows "replace_from r ci f p (qs @ L) = qs @ replace_from r ci f (prev_after p qs) L"
  using assms
proof (induction qs arbitrary: p)
  case Nil
  then show ?case by (simp add: prev_after_def)
next
  case (Cons x qs)
  have n: "match_at r ci p (x # qs @ L) = None" using Cons.prems by simp
  have "replace_from r ci f p ((x # qs) @ L) = x # replace_from r ci f (Some x) (qs @ L)"
    using n by (simp add: replace_from.simps [of r ci f p "x # qs @ L"])
  also have "replace_from r ci f (Some x) (qs @ L) = qs @ replace_from r ci f (prev_after (Some x) qs) L"
    using Cons.IH Cons.prems by simp
  also have "prev_after (Some x) qs = prev_after p (x # qs)" by (simp add: prev_after_def)
  finally show ?case by simp
qed

lemma word_pass_on_tail:
  assumes "\<forall>x\<in>set qs. \<not> is_letter x" and "qs \<noteq> []" and "is_letter c"
  shows "replace_g (Cat WordB (Cat (Lit c) r)) ci f (qs @ L)
           = qs @ replace_from (Cat WordB (Cat (Lit c) r)) ci f (Some (last qs)) L"
proof -
  have "replace_from (Cat WordB (Cat (Lit c) r)) ci f None (qs @ L)
          = qs @ replace_from (Cat WordB (Cat (Lit c) r)) ci f (prev_after None qs) L"
    by (rule replace_from_skip) (use assms match_at_word_start in auto)
  then show ?thesis using assms(2) by (simp add: replace_g_def prev_after_def)
qed

lemmas tail_eval =
  match_at_def at_word_boundary_def star_loop.simps replace_from.simps class_numeral
  is_space_numeral const_repl_def

lemma unit_passes_on_units:
  assumes "\<forall>x\<in>set qs. \<not> is_letter x" and "qs \<noteq> []" and "\<not> is_word (last qs)"
  shows "run_passes unit_passes (qs @ ascii ''tsp'') = qs @ ascii ''teaspoon''"
    and "run_passes unit_passes (qs @ ascii ''tbsp'') = qs @ ascii ''tablespoon''"
    and "run_passes unit_passes (qs @ ascii ''oz'') = qs @ ascii ''ounce''"
    and "run_passes unit_passes (qs @ ascii ''teaspoon'') = qs @ ascii ''teaspoon''"
    and "run_passes unit_passes (qs @ ascii ''tablespoon'') = qs @ ascii ''tablespoon''"
    and "run_passes unit_passes (qs @ ascii ''ounce'') = qs @ ascii ''ounce''"
    and "run_passes unit_passes (qs @ ascii ''teaspoons'') = qs @ ascii ''teaspoons''"
    and "run_passes unit_passes (qs @ ascii ''tablespoons'') = qs @ ascii ''tablespoons''"
    and "run_passes unit_passes (qs @ ascii ''ounces'') = qs @ ascii ''ounces''"
  using assms
  by (simp_all add: run_passes_def unit_passes_def unit_re_def metric_re_def floz_re_def
      ascii_def word_pass_on_tail tail_eval)

text \<open>The plural patterns: digits, white space, then a word pattern \<open>wr\<close>.\<close>

lemma spaces_word_fails:
  assumes sp: "\<forall>x\<in>set ws. is_space x"
    and hd: "case L of [] \<Rightarrow> True | y # ys' \<Rightarrow> \<not> is_space y"
    and start: "\<And>k p x zs c. \<not> is_letter x \<Longrightarrow> m wr ci k (MState p (x # zs) c) = None"
    and fails: "\<And>k p c. m wr ci k (MState p L c) = None"
  shows "m (Cat (Star (Class is_space)) wr) ci k (MState p (ws @ L) c) = None"
proof -
  have "m wr ci k (MState (prev_after p (take i ws)) (drop i ws @ L) c) = None"
    if "i \<le> length ws" for i
  proof (cases "i = length ws")
    case True
    then show ?thesis using fails by simp
  next
    case False
    then have "i < length ws" using that by simp
    then obtain x zs where d: "drop i ws = x # zs" "x \<in> set ws"
      by (metis Cons_nth_drop_Suc nth_mem)
    then have "\<not> is_letter x" using sp space_not_letter by blast
    then show ?thesis using start d by simp
  qed
  then have "m (Star (Class is_space)) ci (m wr ci k) (MState p (ws @ L) c) = None"
    by (intro m_star_class_fail [where k = "m wr ci k"]) (use sp hd in auto)
  then show ?thesis by simp
qed

lemma plural_fails:
  assumes dg: "\<forall>x\<in>set ds. is_digit x" and sp: "\<forall>x\<in>set ws. is_space x"
    and hd: "case L of [] \<Rightarrow> True | y # ys' \<Rightarrow> \<not> is_space y \<and> \<not> is_digit y"
    and start: "\<And>k p x zs c. \<not> is_letter x \<Longrightarrow> m wr ci k (MState p (x # zs) c) = None"
    and fails: "\<And>k p c. m wr ci k (MState p L c) = None"
  shows "match_at (Cat (Group (Plus (Class is_digit))) (Cat (Star (Class is_space)) wr)) ci p
           (ds @ ws @ L) = None"
proof (cases ds)
  case Nil
  show ?thesis
  proof (cases "ws @ L")
    case Nil
    then show ?thesis using \<open>ds = []\<close> by (simp add: match_at_def)
  next
    case (Cons x zs)
    then have "\<not> is_digit x" using sp hd space_not_digit
      by (cases ws) (auto split: list.splits)
    then show ?thesis using \<open>ds = []\<close> Cons by (simp add: match_at_def)
  qed
next
  case (Cons d ds')
  let ?st = "MState p (ds @ ws @ L) None"
  let ?kg = "\<lambda>st'. m (Cat (Star (Class is_space)) wr) ci Some
                 (MState (prev st') (rest st')
                    (Some (take (length (rest ?st) - length (rest st')) (rest ?st))))"
  have hd': "case ws @ L of [] \<Rightarrow> True | y # ys' \<Rightarrow> \<not> is_digit y"
    using sp hd space_not_digit by (cases ws) (auto split: list.splits)
  have "?kg (MState (prev_after (Some d) (take i ds')) (drop i ds' @ ws @ L) None) = None"
    if "i \<le> length ds'" for i
  proof (cases "i = length ds'")
    case True
    have "m (Cat (Star (Class is_space)) wr) ci Some (MState q (ws @ L) g) = None" for q g
      by (rule spaces_word_fails [OF sp _ start fails]) (use hd in \<open>auto split: list.splits\<close>)
    then show ?thesis using True by simp
  next
    case False
    then have "i < length ds'" using that by simp
    then obtain x zs where d: "drop i ds' = x # zs" "x \<in> set ds'"
      by (metis Cons_nth_drop_Suc nth_mem)
    then have x: "is_digit x" using dg Cons by simp
    have "m (Cat (Star (Class is_space)) wr) ci Some (MState q ([] @ (x # zs @ ws @ L)) g) = None" for q g
      by (rule spaces_word_fails) (use x start digit_not_letter space_not_digit in auto)
    then show ?thesis using d by simp
  qed
  then have "m (Star (Class is_digit)) ci ?kg (MState (Some d) (ds' @ ws @ L) None) = None"
    by (intro m_star_class_fail [where k = ?kg]) (use dg Cons hd' in auto)
  then show ?thesis using dg Cons by (simp add: match_at_def)
qed

lemma replace_from_Nil_None:
  "match_at r ci p [] = None \<Longrightarrow> replace_from r ci f p [] = []"
  by (simp add: replace_from.simps)

lemma plural_pass_id:
  assumes dg: "\<forall>x\<in>set ds. is_digit x" and sp: "\<forall>x\<in>set ws. is_space x"
    and L: "\<forall>x\<in>set L. \<not> is_digit x \<and> \<not> is_space x"
    and start: "\<And>k p x zs c. \<not> is_letter x \<Longrightarrow> m wr ci k (MState p (x # zs) c) = None"
    and fails: "\<And>k p c. m wr ci k (MState p L c) = None"
  shows "replace_from (Cat (Group (Plus (Class is_digit))) (Cat (Star (Class is_space)) wr)) ci f p
           (ds @ ws @ L) = ds @ ws @ L"
  using dg
proof (induction ds arbitrary: p)
  case Nil
  let ?r = "Cat (Group (Plus (Class is_digit))) (Cat (Star (Class is_space)) wr)"
  have nd: "match_at ?r ci q (x # zs) = None" if "x \<in> set (ws @ L)" for x q zs
  proof -
    have "\<not> is_digit x" using that sp L space_not_digit by auto
    then show ?thesis by (simp add: match_at_def)
  qed
  have "replace_from ?r ci f p ((ws @ L) @ []) = (ws @ L) @ replace_from ?r ci f (prev_after p (ws @ L)) []"
    by (rule replace_from_skip) (use nd in blast)
  moreover have "replace_from ?r ci f q [] = []" for q
    by (rule replace_from_Nil_None) (simp add: match_at_def)
  ultimately show ?case by simp
next
  case (Cons d ds)
  let ?r = "Cat (Group (Plus (Class is_digit))) (Cat (Star (Class is_space)) wr)"
  have hd: "case L of [] \<Rightarrow> True | y # ys' \<Rightarrow> \<not> is_space y \<and> \<not> is_digit y"
    using L by (auto split: list.splits)
  have "match_at ?r ci p ((d # ds) @ ws @ L) = None"
    by (rule plural_fails [OF Cons.prems sp hd start fails])
  then have "replace_from ?r ci f p ((d # ds) @ ws @ L) = d # replace_from ?r ci f (Some d) (ds @ ws @ L)"
    by (simp add: replace_from.simps [of ?r ci f p "d # ds @ ws @ L"])
  then show ?case using Cons.IH Cons.prems by simp
qed


lemma plural_match:
  assumes ne: "ds \<noteq> []" and dg: "\<forall>x\<in>set ds. is_digit x" and sp: "\<forall>x\<in>set ws. is_space x"
    and hd: "case W of [] \<Rightarrow> True | y # ys' \<Rightarrow> \<not> is_space y \<and> \<not> is_digit y"
    and succ: "\<And>p c. m wr ci Some (MState p W c) = Some (MState (Some e) [] c)"
  shows "match_at (Cat (Group (Plus (Class is_digit))) (Cat (Star (Class is_space)) wr)) ci p
           (ds @ ws @ W) = Some (length (ds @ ws @ W), Some ds)"
proof -
  obtain d ds' where ds: "ds = d # ds'" using ne by (cases ds) auto
  let ?st = "MState p (ds @ ws @ W) None"
  let ?kg = "\<lambda>st'. m (Cat (Star (Class is_space)) wr) ci Some
                 (MState (prev st') (rest st')
                    (Some (take (length (rest ?st) - length (rest st')) (rest ?st))))"
  have hd': "case ws @ W of [] \<Rightarrow> True | y # ys' \<Rightarrow> \<not> is_digit y"
    using sp hd space_not_digit by (cases ws) (auto split: list.splits)
  have hd'': "case W of [] \<Rightarrow> True | y # ys' \<Rightarrow> \<not> is_space y"
    using hd by (auto split: list.splits)
  have "m (Star (Class is_space)) ci (m wr ci Some) (MState q (ws @ W) (Some ds))
          = Some (MState (Some e) [] (Some ds))" for q
    by (rule m_star_class_max [where k = "m wr ci Some"]) (use sp hd'' succ in auto)
  then have kg: "?kg (MState (prev_after (Some d) ds') (ws @ W) None)
                   = Some (MState (Some e) [] (Some ds))"
    by simp
  have "m (Star (Class is_digit)) ci ?kg (MState (Some d) (ds' @ ws @ W) None)
          = Some (MState (Some e) [] (Some ds))"
    by (rule m_star_class_max [where k = ?kg]) (use dg ds hd' kg in auto)
  then have "m (Cat (Group (Plus (Class is_digit))) (Cat (Star (Class is_space)) wr)) ci Some ?st
               = Some (MState (Some e) [] (Some ds))"
    using dg ds by simp
  then show ?thesis by (simp add: match_at_def)
qed

lemma parseInt_digits:
  assumes "ds \<noteq> []" and "\<forall>x\<in>set ds. is_digit x"
  shows "parseInt ds = Some (foldl (\<lambda>a c. 10 * a + (c - 48)) 0 ds)"
proof -
  obtain d ds' where ds: "ds = d # ds'" using assms(1) by (cases ds) auto
  have "dropWhile is_space ds = ds" using assms(2) ds space_not_digit by auto
  moreover have "takeWhile is_digit ds = ds" using assms(2) by simp
  ultimately show ?thesis using ds by (simp add: parseInt_def)
qed

lemma plural_pass_match:
  assumes ne: "ds \<noteq> []" and dg: "\<forall>x\<in>set ds. is_digit x" and sp: "\<forall>x\<in>set ws. is_space x"
    and hd: "case W of [] \<Rightarrow> True | y # ys' \<Rightarrow> \<not> is_space y \<and> \<not> is_digit y"
    and succ: "\<And>p c. m wr ci Some (MState p W c) = Some (MState (Some e) [] c)"
  shows "replace_g (Cat (Group (Plus (Class is_digit))) (Cat (Star (Class is_space)) wr)) ci
           plural_repl (ds @ ws @ W)
         = ds @ ws @ W @ (if parseInt ds = Some 1 then [] else [115])"
proof -
  let ?r = "Cat (Group (Plus (Class is_digit))) (Cat (Star (Class is_space)) wr)"
  have ma: "match_at ?r ci None (ds @ ws @ W) = Some (length (ds @ ws @ W), Some ds)"
    by (rule plural_match [OF ne dg sp hd succ])
  have e: "replace_from ?r ci plural_repl q [] = []" for q
    by (rule replace_from_Nil_None) (simp add: match_at_def)
  have "replace_from ?r ci plural_repl None (ds @ ws @ W)
          = plural_repl (ds @ ws @ W) (Some ds)"
    using ma ne e by (simp add: replace_from.simps [of ?r ci plural_repl None "ds @ ws @ W"])
  then show ?thesis by (simp add: replace_g_def plural_repl_def)
qed

lemma plural_pass_id_g:
  assumes dg: "\<forall>x\<in>set ds. is_digit x" and sp: "\<forall>x\<in>set ws. is_space x"
    and L: "\<forall>x\<in>set L. \<not> is_digit x \<and> \<not> is_space x"
    and start: "\<And>k p x zs c. \<not> is_letter x \<Longrightarrow> m wr ci k (MState p (x # zs) c) = None"
    and fails: "\<And>k p c. m wr ci k (MState p L c) = None"
  shows "replace_g (Cat (Group (Plus (Class is_digit))) (Cat (Star (Class is_space)) wr)) ci f
           (ds @ ws @ L) = ds @ ws @ L"
  unfolding replace_g_def by (rule plural_pass_id [OF assms])

lemmas word_eval = ascii_def class_numeral is_space_numeral

lemma word_start:
  "\<not> is_letter x \<Longrightarrow>
     m (Str (ascii ''teaspoon'') (NotAhead (Lit 115))) True k (MState p (x # zs) c) = None"
  "\<not> is_letter x \<Longrightarrow>
     m (Str (ascii ''tablespoon'') (NotAhead (Lit 115))) True k (MState p (x # zs) c) = None"
  "\<not> is_letter x \<Longrightarrow>
     m (Str (ascii ''ounce'') (NotAhead (Lit 115))) True k (MState p (x # zs) c) = None"
  using m_Lit_nonletter [of x 116 True] m_Lit_nonletter [of x 111 True]
  by (simp_all add: word_eval)

lemma plural_passes_singular:
  assumes ne: "ds \<noteq> []" and dg: "\<forall>x\<in>set ds. is_digit x" and sp: "\<forall>x\<in>set ws. is_space x"
  shows "run_passes plural_passes (ds @ ws @ ascii ''teaspoon'')
           = ds @ ws @ ascii ''teaspoon'' @ (if parseInt ds = Some 1 then [] else [115])"
    and "run_passes plural_passes (ds @ ws @ ascii ''tablespoon'')
           = ds @ ws @ ascii ''tablespoon'' @ (if parseInt ds = Some 1 then [] else [115])"
    and "run_passes plural_passes (ds @ ws @ ascii ''ounce'')
           = ds @ ws @ ascii ''ounce'' @ (if parseInt ds = Some 1 then [] else [115])"
proof -
  note idg = plural_pass_id_g [OF dg sp]
  note mg = plural_pass_match [OF ne dg sp]
  have t1: "replace_g (plural_re ''teaspoon'') True plural_repl (ds @ ws @ ascii ''teaspoon'')
              = ds @ ws @ ascii ''teaspoon'' @ (if parseInt ds = Some 1 then [] else [115])"
    unfolding plural_re_def by (rule mg [where e = 110]) (simp_all add: word_eval)
  have t2: "replace_g (plural_re ''tablespoon'') True plural_repl (ds @ ws @ L) = ds @ ws @ L"
    if "L = ascii ''teaspoon'' \<or> L = ascii ''teaspoons''" for L
    unfolding plural_re_def by (rule idg) (use that word_start in \<open>auto simp: word_eval\<close>)
  have t3: "replace_g (plural_re ''ounce'') True plural_repl (ds @ ws @ L) = ds @ ws @ L"
    if "L = ascii ''teaspoon'' \<or> L = ascii ''teaspoons''
        \<or> L = ascii ''tablespoon'' \<or> L = ascii ''tablespoons''" for L
    unfolding plural_re_def by (rule idg) (use that word_start in \<open>auto simp: word_eval\<close>)
  have b1: "replace_g (plural_re ''teaspoon'') True plural_repl (ds @ ws @ L) = ds @ ws @ L"
    if "L = ascii ''tablespoon'' \<or> L = ascii ''ounce''" for L
    unfolding plural_re_def by (rule idg) (use that word_start in \<open>auto simp: word_eval\<close>)
  have b2: "replace_g (plural_re ''tablespoon'') True plural_repl (ds @ ws @ ascii ''tablespoon'')
              = ds @ ws @ ascii ''tablespoon'' @ (if parseInt ds = Some 1 then [] else [115])"
    unfolding plural_re_def by (rule mg [where e = 110]) (simp_all add: word_eval)
  have o2: "replace_g (plural_re ''tablespoon'') True plural_repl (ds @ ws @ ascii ''ounce'')
              = ds @ ws @ ascii ''ounce''"
    unfolding plural_re_def by (rule idg) (use word_start in \<open>auto simp: word_eval\<close>)
  have o3: "replace_g (plural_re ''ounce'') True plural_repl (ds @ ws @ ascii ''ounce'')
              = ds @ ws @ ascii ''ounce'' @ (if parseInt ds = Some 1 then [] else [115])"
    unfolding plural_re_def by (rule mg [where e = 101]) (simp_all add: word_eval)
  have s1: "ascii ''teaspoon'' @ [115] = ascii ''teaspoons''"
    and s2: "ascii ''tablespoon'' @ [115] = ascii ''tablespoons''"
    by (simp_all add: ascii_def)
  show "run_passes plural_passes (ds @ ws @ ascii ''teaspoon'')
           = ds @ ws @ ascii ''teaspoon'' @ (if parseInt ds = Some 1 then [] else [115])"
    by (cases "parseInt ds = Some 1")
       (simp_all add: run_passes_def plural_passes_def t1 t2 t3 s1)
  show "run_passes plural_passes (ds @ ws @ ascii ''tablespoon'')
           = ds @ ws @ ascii ''tablespoon'' @ (if parseInt ds = Some 1 then [] else [115])"
    by (cases "parseInt ds = Some 1")
       (simp_all add: run_passes_def plural_passes_def b1 b2 t3 s2)
  show "run_passes plural_passes (ds @ ws @ ascii ''ounce'')
           = ds @ ws @ ascii ''ounce'' @ (if parseInt ds = Some 1 then [] else [115])"
    by (simp add: run_passes_def plural_passes_def b1 o2 o3)
qed

lemma plural_passes_plural:
  assumes dg: "\<forall>x\<in>set ds. is_digit x" and sp: "\<forall>x\<in>set ws. is_space x"
    and L: "L = ascii ''teaspoons'' \<or> L = ascii ''tablespoons'' \<or> L = ascii ''ounces''"
  shows "run_passes plural_passes (ds @ ws @ L) = ds @ ws @ L"
proof -
  note idg = plural_pass_id_g [OF dg sp]
  have "replace_g (plural_re w) True plural_repl (ds @ ws @ L) = ds @ ws @ L"
    if "w = ''teaspoon'' \<or> w = ''tablespoon'' \<or> w = ''ounce''" for w
    unfolding plural_re_def by (rule idg) (use that L word_start in \<open>auto simp: word_eval\<close>)
  then show ?thesis by (simp add: run_passes_def plural_passes_def)
qed


lemma replace_from_none:
  "(\<And>i p. i \<le> length xs \<Longrightarrow> match_at r ci p (drop i xs) = None) \<Longrightarrow>
     replace_from r ci f p xs = xs"
proof (induction xs arbitrary: p)
  case Nil
  then show ?case using replace_from_Nil_None [of r ci p f] by force
next
  case (Cons x xs)
  have "match_at r ci p (x # xs) = None" using Cons.prems [of 0 p] by simp
  then have "replace_from r ci f p (x # xs) = x # replace_from r ci f (Some x) xs"
    by (simp add: replace_from.simps [of r ci f p "x # xs"])
  moreover have "replace_from r ci f (Some x) xs = xs"
  proof (rule Cons.IH)
    fix i q
    assume "i \<le> length xs"
    then show "match_at r ci q (drop i xs) = None" using Cons.prems [of "Suc i" q] by simp
  qed
  ultimately show ?case by simp
qed

lemma lang_Str: "lang (Str cs r) False = {cs @ v | v. v \<in> lang r False}"
  by (induction cs) auto

lemma literal_pass_id:
  assumes "c \<in> set cs" and "c \<notin> set xs"
  shows "replace_g (Str cs Eps) False f xs = xs"
  unfolding replace_g_def
proof (rule replace_from_none)
  fix i p
  show "match_at (Str cs Eps) False p (drop i xs) = None"
  proof (cases "match_at (Str cs Eps) False p (drop i xs)")
    case None
    then show ?thesis .
  next
    case (Some ng)
    obtain n g where "ng = (n, g)" by (cases ng)
    with Some have "take n (drop i xs) \<in> lang (Str cs Eps) False"
      using match_at_lang by blast
    then have "take n (drop i xs) = cs" by (simp add: lang_Str)
    then have "c \<in> set (take n (drop i xs))" using assms(1) by simp
    then have "c \<in> set xs" by (meson in_set_dropD in_set_takeD)
    with assms(2) show ?thesis by simp
  qed
qed

lemma fraction_passes_id:
  assumes "47 \<notin> set xs"
  shows "run_passes fraction_passes xs = xs"
proof -
  have "replace_g (fraction_re w) False f xs = xs"
    if "w \<in> {''1/2'', ''1/3'', ''2/3'', ''1/4'', ''3/4'', ''1/8''}" for w f
    unfolding fraction_re_def
    by (rule literal_pass_id [where c = 47]) (use that assms in \<open>auto simp: ascii_def\<close>)
  then show ?thesis by (simp add: run_passes_def fraction_passes_def)
qed

lemma trim_id:
  assumes "xs \<noteq> []" and "\<not> is_space (hd xs)" and "\<not> is_space (last xs)"
  shows "trim xs = xs"
proof -
  have "dropWhile is_space xs = xs" using assms(1,2) by (cases xs) auto
  moreover have "dropWhile is_space (rev xs) = rev xs"
    using assms(1,3) by (cases "rev xs") (auto simp: hd_rev [symmetric] simp del: hd_rev)
  ultimately show ?thesis by (simp add: trim_def)
qed

lemma quantity_facts:
  assumes "ds \<noteq> []" and "\<forall>d\<in>set ds. is_digit d" and "ws \<noteq> []" and "\<forall>c\<in>set ws. is_space c"
  shows "\<forall>x\<in>set (ds @ ws). \<not> is_letter x" and "ds @ ws \<noteq> []" and "\<not> is_word (last (ds @ ws))"
    and "47 \<notin> set (ds @ ws)" and "\<not> is_space (hd (ds @ ws @ L))"
proof -
  show "\<forall>x\<in>set (ds @ ws). \<not> is_letter x"
    using assms digit_not_letter space_not_letter by auto
  show "ds @ ws \<noteq> []" using assms(1) by simp
  have "last (ds @ ws) \<in> set ws" using assms(3) by simp
  then show "\<not> is_word (last (ds @ ws))" using assms(4) space_not_word by blast
  have "\<not> is_digit 47" "\<not> is_space 47" by (simp_all add: is_digit_def is_space_def)
  then show "47 \<notin> set (ds @ ws)" using assms(2,4) by auto
  have "hd (ds @ ws @ L) \<in> set ds" using assms(1) by simp
  then show "\<not> is_space (hd (ds @ ws @ L))" using assms(2) space_not_digit by blast
qed

lemma expandUnits_assemble:
  assumes ne: "ds \<noteq> []" and dg: "\<forall>d\<in>set ds. is_digit d"
    and wne: "ws \<noteq> []" and sp: "\<forall>c\<in>set ws. is_space c"
    and sl: "47 \<notin> set A"
    and un: "run_passes unit_passes (ds @ ws @ A) = ds @ ws @ B"
    and pl: "run_passes plural_passes (ds @ ws @ B) = ds @ ws @ C"
    and en: "C \<noteq> []" "\<not> is_space (last C)"
  shows "expandUnits (ds @ ws @ A) = ds @ ws @ C"
proof -
  note q = quantity_facts [OF ne dg wne sp]
  have fr: "run_passes fraction_passes (ds @ ws @ A) = ds @ ws @ A"
    by (rule fraction_passes_id) (use q(4) sl in auto)
  have "trim (ds @ ws @ C) = ds @ ws @ C"
    by (rule trim_id) (use ne q(5) [of C] en in auto)
  then show ?thesis using ne fr un pl by (simp add: expandUnits_def)
qed

lemma suffix_end:
  assumes "W \<noteq> []" and "\<not> is_space (last W)"
  shows "W @ (if b then [] else [115]) \<noteq> []"
    and "\<not> is_space (last (W @ (if b then [] else [115])))"
  using assms by (cases b; simp add: is_space_def)+

lemma word_ends:
  "ascii ''teaspoon'' \<noteq> []" "\<not> is_space (last (ascii ''teaspoon''))"
  "ascii ''tablespoon'' \<noteq> []" "\<not> is_space (last (ascii ''tablespoon''))"
  "ascii ''ounce'' \<noteq> []" "\<not> is_space (last (ascii ''ounce''))"
  "ascii ''teaspoons'' \<noteq> []" "\<not> is_space (last (ascii ''teaspoons''))"
  "ascii ''tablespoons'' \<noteq> []" "\<not> is_space (last (ascii ''tablespoons''))"
  "ascii ''ounces'' \<noteq> []" "\<not> is_space (last (ascii ''ounces''))"
  by (simp_all add: word_eval)

lemma no_slash:
  "47 \<notin> set (ascii ''tsp'')" "47 \<notin> set (ascii ''tbsp'')" "47 \<notin> set (ascii ''oz'')"
  "47 \<notin> set (ascii ''teaspoon'')" "47 \<notin> set (ascii ''tablespoon'')"
  "47 \<notin> set (ascii ''ounce'')" "47 \<notin> set (ascii ''teaspoons'')"
  "47 \<notin> set (ascii ''tablespoons'')" "47 \<notin> set (ascii ''ounces'')"
  by (simp_all add: ascii_def)

lemma expandUnits_quantity_unit:
  assumes ne: "ds \<noteq> []" and dg: "\<forall>d\<in>set ds. is_digit d"
    and wne: "ws \<noteq> []" and sp: "\<forall>c\<in>set ws. is_space c"
  shows "expandUnits (ds @ ws @ ascii ''tsp'')
           = ds @ ws @ ascii ''teaspoon'' @ (if parseInt ds = Some 1 then [] else [115])"
    and "expandUnits (ds @ ws @ ascii ''tbsp'')
           = ds @ ws @ ascii ''tablespoon'' @ (if parseInt ds = Some 1 then [] else [115])"
    and "expandUnits (ds @ ws @ ascii ''oz'')
           = ds @ ws @ ascii ''ounce'' @ (if parseInt ds = Some 1 then [] else [115])"
    and "expandUnits (ds @ ws @ ascii ''teaspoon'')
           = ds @ ws @ ascii ''teaspoon'' @ (if parseInt ds = Some 1 then [] else [115])"
    and "expandUnits (ds @ ws @ ascii ''tablespoon'')
           = ds @ ws @ ascii ''tablespoon'' @ (if parseInt ds = Some 1 then [] else [115])"
    and "expandUnits (ds @ ws @ ascii ''ounce'')
           = ds @ ws @ ascii ''ounce'' @ (if parseInt ds = Some 1 then [] else [115])"
    and "expandUnits (ds @ ws @ ascii ''teaspoons'') = ds @ ws @ ascii ''teaspoons''"
    and "expandUnits (ds @ ws @ ascii ''tablespoons'') = ds @ ws @ ascii ''tablespoons''"
    and "expandUnits (ds @ ws @ ascii ''ounces'') = ds @ ws @ ascii ''ounces''"
proof -
  note q = quantity_facts [OF ne dg wne sp]
  note up = unit_passes_on_units [OF q(1) q(2) q(3), unfolded append_assoc]
  note pp = plural_passes_singular [OF ne dg sp]
  note pq = plural_passes_plural [OF dg sp]
  note asm = expandUnits_assemble [OF ne dg wne sp]
  show "expandUnits (ds @ ws @ ascii ''tsp'')
           = ds @ ws @ ascii ''teaspoon'' @ (if parseInt ds = Some 1 then [] else [115])"
    by (rule asm [OF no_slash(1) up(1) pp(1) suffix_end [OF word_ends(1,2)]])
  show "expandUnits (ds @ ws @ ascii ''tbsp'')
           = ds @ ws @ ascii ''tablespoon'' @ (if parseInt ds = Some 1 then [] else [115])"
    by (rule asm [OF no_slash(2) up(2) pp(2) suffix_end [OF word_ends(3,4)]])
  show "expandUnits (ds @ ws @ ascii ''oz'')
           = ds @ ws @ ascii ''ounce'' @ (if parseInt ds = Some 1 then [] else [115])"
    by (rule asm [OF no_slash(3) up(3) pp(3) suffix_end [OF word_ends(5,6)]])
  show "expandUnits (ds @ ws @ ascii ''teaspoon'')
           = ds @ ws @ ascii ''teaspoon'' @ (if parseInt ds = Some 1 then [] else [115])"
    by (rule asm [OF no_slash(4) up(4) pp(1) suffix_end [OF word_ends(1,2)]])
  show "expandUnits (ds @ ws @ ascii ''tablespoon'')
           = ds @ ws @ ascii ''tablespoon'' @ (if parseInt ds = Some 1 then [] else [115])"
    by (rule asm [OF no_slash(5) up(5) pp(2) suffix_end [OF word_ends(3,4)]])
  show "expandUnits (ds @ ws @ ascii ''ounce'')
           = ds @ ws @ ascii ''ounce'' @ (if parseInt ds = Some 1 then [] else [115])"
    by (rule asm [OF no_slash(6) up(6) pp(3) suffix_end [OF word_ends(5,6)]])
  show "expandUnits (ds @ ws @ ascii ''teaspoons'') = ds @ ws @ ascii ''teaspoons''"
    by (rule asm [OF no_slash(7) up(7) pq word_ends(7,8)]) simp
  show "expandUnits (ds @ ws @ ascii ''tablespoons'') = ds @ ws @ ascii ''tablespoons''"
    by (rule asm [OF no_slash(8) up(8) pq word_ends(9,10)]) simp
  show "expandUnits (ds @ ws @ ascii ''ounces'') = ds @ ws @ ascii ''ounces''"
    by (rule asm [OF no_slash(9) up(9) pq word_ends(11,12)]) simp
qed


lemma value_zero:
  "\<forall>d\<in>set ds. is_digit d \<Longrightarrow>
     (foldl (\<lambda>a c. 10 * a + (c - 48)) 0 ds = 0) = (ds = replicate (length ds) 48)"
proof (induction ds rule: rev_induct)
  case Nil
  then show ?case by simp
next
  case (snoc d ds)
  then have d: "48 \<le> d" by (simp add: is_digit_def)
  have "(foldl (\<lambda>a c. 10 * a + (c - 48)) 0 (ds @ [d]) = 0)
          = (foldl (\<lambda>a c. 10 * a + (c - 48)) 0 ds = 0 \<and> d = 48)"
    using d by auto
  also have "\<dots> = (ds = replicate (length ds) 48 \<and> d = 48)" using snoc by simp
  also have "\<dots> = (ds @ [d] = replicate (length (ds @ [d])) 48)"
    by (simp add: replicate_append_same [symmetric])
  finally show ?case .
qed

lemma parseInt_one:
  assumes "ds \<noteq> []" and "\<forall>d\<in>set ds. is_digit d"
  shows "(parseInt ds = Some 1) = (\<exists>k. ds = replicate k 48 @ [49])"
proof -
  obtain xs d where ds: "ds = xs @ [d]" using assms(1) by (cases ds rule: rev_cases) auto
  then have d: "48 \<le> d" and xs: "\<forall>d\<in>set xs. is_digit d"
    using assms(2) by (simp_all add: is_digit_def)
  have "(parseInt ds = Some 1) = (foldl (\<lambda>a c. 10 * a + (c - 48)) 0 (xs @ [d]) = 1)"
    using parseInt_digits [OF assms] ds by simp
  also have "\<dots> = (foldl (\<lambda>a c. 10 * a + (c - 48)) 0 xs = 0 \<and> d = 49)"
  proof -
    have "(10 * v + (d - 48) = 1) = (v = 0 \<and> d = 49)" for v :: nat
      using d by arith
    then show ?thesis by simp
  qed
  also have "\<dots> = (xs = replicate (length xs) 48 \<and> d = 49)"
    using value_zero [OF xs] by simp
  also have "\<dots> = (\<exists>k. ds = replicate k 48 @ [49])"
    using ds by auto
  finally show ?thesis .
qed

subsection \<open>The plural passes, patterns against description\<close>

lemma m_Str_ci:
  "m (Str W rr) True k (MState p xs c)
     = (if length W \<le> length xs \<and> map canon (take (length W) xs) = map canon W
        then m rr True k (MState (prev_after p (take (length W) xs)) (drop (length W) xs) c)
        else None)"
proof (induction W arbitrary: p xs)
  case Nil
  then show ?case by (simp add: prev_after_def)
next
  case step: (Cons a W)
  show ?case
  proof (cases xs)
    case Nil
    then show ?thesis by simp
  next
    case (Cons x zs)
    then show ?thesis using step.IH [of "Some x" zs] by (auto simp: prev_after_Cons)
  qed
qed

lemma word_at:
  "m (Str W (NotAhead (Lit 115))) True k (MState p r c)
     = (if word_follows W r
        then k (MState (prev_after p (take (length W) r)) (drop (length W) r) c)
        else None)"
  unfolding m_Str_ci word_follows_def
  by (cases "drop (length W) r") auto

lemma word_at_start:
  assumes "W \<noteq> []" and "is_letter (hd W)" and "\<not> is_letter x"
  shows "m (Str W (NotAhead (Lit 115))) True k (MState p (x # zs) c) = None"
proof -
  obtain a W' where W: "W = a # W'" using assms(1) by (cases W) auto
  have "canon x \<noteq> canon a" using canon_letter [of a x] assms(2,3) W by auto
  then have "\<not> word_follows W (x # zs)" by (simp add: word_follows_def W)
  then show ?thesis by (simp add: word_at)
qed

lemma plural_fails_at:
  assumes dg: "\<forall>x\<in>set ds. is_digit x" and sp: "\<forall>x\<in>set ws. is_space x"
    and hd1: "case ws @ L of [] \<Rightarrow> True | y # ys' \<Rightarrow> \<not> is_digit y"
    and hd2: "case L of [] \<Rightarrow> True | y # ys' \<Rightarrow> \<not> is_space y"
    and start: "\<And>k p x zs c. \<not> is_letter x \<Longrightarrow> m wr ci k (MState p (x # zs) c) = None"
    and fails: "\<And>k p c. m wr ci k (MState p L c) = None"
  shows "match_at (Cat (Group (Plus (Class is_digit))) (Cat (Star (Class is_space)) wr)) ci p
           (ds @ ws @ L) = None"
proof (cases ds)
  case Nil
  show ?thesis
  proof (cases "ws @ L")
    case Nil
    then show ?thesis using \<open>ds = []\<close> by (simp add: match_at_def)
  next
    case (Cons x zs)
    then have "\<not> is_digit x" using hd1 by simp
    then show ?thesis using \<open>ds = []\<close> Cons by (simp add: match_at_def)
  qed
next
  case (Cons d ds')
  let ?st = "MState p (ds @ ws @ L) None"
  let ?kg = "\<lambda>st'. m (Cat (Star (Class is_space)) wr) ci Some
                 (MState (prev st') (rest st')
                    (Some (take (length (rest ?st) - length (rest st')) (rest ?st))))"
  have "?kg (MState (prev_after (Some d) (take i ds')) (drop i ds' @ ws @ L) None) = None"
    if "i \<le> length ds'" for i
  proof (cases "i = length ds'")
    case True
    have "m (Cat (Star (Class is_space)) wr) ci Some (MState q (ws @ L) g) = None" for q g
      by (rule spaces_word_fails [OF sp hd2 start fails])
    then show ?thesis using True by simp
  next
    case False
    then have "i < length ds'" using that by simp
    then obtain x zs where d: "drop i ds' = x # zs" "x \<in> set ds'"
      by (metis Cons_nth_drop_Suc nth_mem)
    then have x: "is_digit x" using dg Cons by simp
    have "m (Cat (Star (Class is_space)) wr) ci Some (MState q ([] @ (x # zs @ ws @ L)) g) = None" for q g
      by (rule spaces_word_fails) (use x start digit_not_letter space_not_digit in auto)
    then show ?thesis using d by simp
  qed
  then have "m (Star (Class is_digit)) ci ?kg (MState (Some d) (ds' @ ws @ L) None) = None"
    by (intro m_star_class_fail [where k = ?kg]) (use dg Cons hd1 in auto)
  then show ?thesis using dg Cons by (simp add: match_at_def)
qed

lemma plural_match_at:
  assumes ne: "ds \<noteq> []" and dg: "\<forall>x\<in>set ds. is_digit x" and sp: "\<forall>x\<in>set ws. is_space x"
    and hd1: "case ws @ L of [] \<Rightarrow> True | y # ys' \<Rightarrow> \<not> is_digit y"
    and hd2: "case L of [] \<Rightarrow> True | y # ys' \<Rightarrow> \<not> is_space y"
    and succ: "\<And>p c. m wr ci Some (MState p L c) = Some (MState e R c)"
  shows "match_at (Cat (Group (Plus (Class is_digit))) (Cat (Star (Class is_space)) wr)) ci p
           (ds @ ws @ L) = Some (length (ds @ ws @ L) - length R, Some ds)"
proof -
  obtain d ds' where ds: "ds = d # ds'" using ne by (cases ds) auto
  let ?st = "MState p (ds @ ws @ L) None"
  let ?kg = "\<lambda>st'. m (Cat (Star (Class is_space)) wr) ci Some
                 (MState (prev st') (rest st')
                    (Some (take (length (rest ?st) - length (rest st')) (rest ?st))))"
  have "m (Star (Class is_space)) ci (m wr ci Some) (MState q (ws @ L) (Some ds))
          = Some (MState e R (Some ds))" for q
    by (rule m_star_class_max [where k = "m wr ci Some"]) (use sp hd2 succ in auto)
  then have kg: "?kg (MState (prev_after (Some d) ds') (ws @ L) None)
                   = Some (MState e R (Some ds))"
    by simp
  have "m (Star (Class is_digit)) ci ?kg (MState (Some d) (ds' @ ws @ L) None)
          = Some (MState e R (Some ds))"
    by (rule m_star_class_max [where k = ?kg]) (use dg ds hd1 kg in auto)
  then have "m (Cat (Group (Plus (Class is_digit))) (Cat (Star (Class is_space)) wr)) ci Some ?st
               = Some (MState e R (Some ds))"
    using dg ds by simp
  then show ?thesis by (simp add: match_at_def)
qed

lemma match_at_plural:
  assumes W: "W \<noteq> []" "is_letter (hd W)"
  shows "match_at (Cat (Group (Plus (Class is_digit)))
                    (Cat (Star (Class is_space)) (Str W (NotAhead (Lit 115))))) True p xs
           = (if quantity_at W xs = 0 then None
              else Some (quantity_at W xs, Some (takeWhile is_digit xs)))"
proof -
  let ?wr = "Str W (NotAhead (Lit 115))"
  let ?ds = "takeWhile is_digit xs"
  let ?ws = "takeWhile is_space (dropWhile is_digit xs)"
  let ?r = "dropWhile is_space (dropWhile is_digit xs)"
  have xs: "xs = ?ds @ ?ws @ ?r" by simp
  have dg: "\<forall>x\<in>set ?ds. is_digit x" by (auto dest: set_takeWhileD)
  have sp: "\<forall>x\<in>set ?ws. is_space x" by (auto dest: set_takeWhileD)
  have hd2: "case ?r of [] \<Rightarrow> True | y # ys' \<Rightarrow> \<not> is_space y"
    by (auto split: list.splits simp: dropWhile_eq_Cons_conv)
  have hd0: "case dropWhile is_digit xs of [] \<Rightarrow> True | y # ys' \<Rightarrow> \<not> is_digit y"
    by (auto split: list.splits simp: dropWhile_eq_Cons_conv)
  have hd1: "case ?ws @ ?r of [] \<Rightarrow> True | y # ys' \<Rightarrow> \<not> is_digit y"
    using hd0 by simp
  have start: "m ?wr True k (MState q (x # zs) c) = None" if "\<not> is_letter x" for k q x zs c
    by (rule word_at_start [OF W that])
  have q: "quantity_at W xs
             = (if ?ds \<noteq> [] \<and> word_follows W ?r then length ?ds + length ?ws + length W else 0)"
    by (simp add: quantity_at_def Let_def)
  have W0: "0 < length W" using W(1) by simp
  show ?thesis
  proof (cases "?ds \<noteq> [] \<and> word_follows W ?r")
    case True
    then have le: "length W \<le> length ?r" by (simp add: word_follows_def)
    have "length (take (length W) ?r) = length W"
      using le by (simp only: length_take min_absorb2)
    then have "0 < length (take (length W) ?r)" using W0 by (simp only:)
    then have tne: "take (length W) ?r \<noteq> []" by (metis length_greater_0_conv)
    have succ: "m ?wr True Some (MState q ?r c)
                  = Some (MState (Some (last (take (length W) ?r))) (drop (length W) ?r) c)" for q c
      unfolding word_at prev_after_def using True tne by auto
    have "match_at (Cat (Group (Plus (Class is_digit))) (Cat (Star (Class is_space)) ?wr)) True p
            (?ds @ ?ws @ ?r)
          = Some (length (?ds @ ?ws @ ?r) - length (drop (length W) ?r), Some ?ds)"
      by (rule plural_match_at [OF _ dg sp hd1 hd2 succ]) (use True in simp)
    moreover have "length (?ds @ ?ws @ ?r) - length (drop (length W) ?r)
                     = length ?ds + length ?ws + length W"
      unfolding length_append length_drop using le by linarith
    ultimately have "match_at (Cat (Group (Plus (Class is_digit))) (Cat (Star (Class is_space)) ?wr))
                       True p (?ds @ ?ws @ ?r)
                     = Some (length ?ds + length ?ws + length W, Some ?ds)"
      by simp
    then show ?thesis unfolding q using True W0 by (simp only: xs [symmetric]) simp
  next
    case False
    have "match_at (Cat (Group (Plus (Class is_digit))) (Cat (Star (Class is_space)) ?wr)) True p
            (?ds @ ?ws @ ?r) = None"
    proof (cases "?ds = []")
      case True
      have "case xs of [] \<Rightarrow> True | y # ys' \<Rightarrow> \<not> is_digit y"
        using True by (cases xs) (auto split: if_splits)
      then have "match_at (Cat (Group (Plus (Class is_digit))) (Cat (Star (Class is_space)) ?wr))
                   True p xs = None"
        by (cases xs) (simp_all add: match_at_def)
      then show ?thesis by (simp only: xs [symmetric])
    next
      case ne: False
      then have "\<not> word_follows W ?r" using False by simp
      then have fails: "m ?wr True k (MState q ?r c) = None" for k q c by (simp add: word_at)
      show ?thesis by (rule plural_fails_at [OF dg sp hd1 hd2 start fails])
    qed
    then show ?thesis unfolding q using False by (simp only: xs [symmetric]) simp
  qed
qed

lemma reads_as_one_iff: "reads_as_one ds = (\<exists>k. ds = replicate k 48 @ [49])"
proof
  assume "reads_as_one ds"
  then have d: "dropWhile (\<lambda>d. d = 48) ds = [49]" by (simp add: reads_as_one_def)
  have "takeWhile (\<lambda>d. d = 48) ds = replicate (length (takeWhile (\<lambda>d. d = 48) ds)) 48"
    by (rule replicate_length_same [symmetric]) (auto dest: set_takeWhileD)
  moreover have "ds = takeWhile (\<lambda>d. d = 48) ds @ dropWhile (\<lambda>d. d = 48) ds" by simp
  ultimately show "\<exists>k. ds = replicate k 48 @ [49]" using d by metis
next
  assume "\<exists>k. ds = replicate k 48 @ [49]"
  then obtain k where "ds = replicate k 48 @ [49]" by blast
  then show "reads_as_one ds" by (simp add: reads_as_one_def dropWhile_append)
qed

lemma plural_pass_pluralize:
  assumes W: "W \<noteq> []" "is_letter (hd W)"
  shows "replace_from (Cat (Group (Plus (Class is_digit)))
                        (Cat (Star (Class is_space)) (Str W (NotAhead (Lit 115))))) True
           plural_repl p xs = pluralize W xs"
  using W
proof (induction W xs arbitrary: p rule: pluralize.induct)
  case (1 w xs)
  let ?r = "Cat (Group (Plus (Class is_digit)))
              (Cat (Star (Class is_space)) (Str w (NotAhead (Lit 115))))"
  note u = replace_from.simps [of ?r True plural_repl p xs] pluralize.simps [of w xs]
  note ma = match_at_plural [OF "1.prems"]
  show ?case
  proof (cases xs)
    case Nil
    have "quantity_at w [] = 0" by (simp add: quantity_at_def)
    then show ?thesis unfolding u using Nil by (simp add: ma)
  next
    case (Cons c cs)
    show ?thesis
    proof (cases "quantity_at w xs = 0")
      case True
      have "replace_from ?r True plural_repl q cs = pluralize w cs" for q
        using "1.IH"(1) [OF Cons True "1.prems"] .
      then show ?thesis unfolding u using Cons True by (simp add: ma)
    next
      case False
      have ds: "takeWhile is_digit xs \<noteq> []" "\<forall>d\<in>set (takeWhile is_digit xs). is_digit d"
        using False by (auto simp: quantity_at_def Let_def dest: set_takeWhileD split: if_splits)
      have one: "(parseInt (takeWhile is_digit xs) = Some 1) = reads_as_one (takeWhile is_digit xs)"
        using parseInt_one [OF ds] by (simp add: reads_as_one_iff)
      have "replace_from ?r True plural_repl q (drop (quantity_at w xs) xs)
              = pluralize w (drop (quantity_at w xs) xs)" for q
        using "1.IH"(2) [OF Cons False "1.prems"] .
      then show ?thesis unfolding u using Cons False one
        by (simp add: ma plural_repl_def)
    qed
  qed
qed

lemma plural_passes_pluralized: "run_passes plural_passes t = spec_plurals t"
proof -
  have "replace_g (plural_re w) True plural_repl s = pluralize (ascii w) s"
    if "ascii w \<noteq> []" "is_letter (hd (ascii w))" for w s
    unfolding replace_g_def plural_re_def by (rule plural_pass_pluralize [OF that])
  then show ?thesis
    by (simp add: run_passes_def plural_passes_def spec_plurals_def ascii_def class_numeral)
qed

text \<open>
  C3 (as amended). The three plural passes of the source do exactly what the description
  says: wherever, in the text after the unit expansion, a digit sequence (with or without
  white space after it) stands immediately before the word teaspoon, tablespoon or
  ounce, in any letter case, and the word is not followed by the letter \<open>s\<close>, the word
  stays singular when the number read from the digit sequence is 1 and gets an \<open>s\<close>
  appended for every other digit sequence; nothing else is changed. The number read is
  1 exactly for the digit 1 after any number of zeros. In particular, for a measure made
  of a digit sequence, white space and one of the abbreviations \<open>tsp\<close>, \<open>tbsp\<close>, \<open>oz\<close>,
  the result is the digits, the white space and the expanded unit word, singular or with
  its \<open>s\<close> by that rule.
\<close>

theorem expandUnits_pluralizes:
  "run_passes plural_passes t = spec_plurals t
   \<and> expandUnits measure_s
       = (if measure_s = [] then []
          else trim (spec_plurals (run_passes unit_passes (run_passes fraction_passes measure_s))))
   \<and> (\<forall>ds ws. ds \<noteq> [] \<and> (\<forall>d\<in>set ds. is_digit d) \<and> ws \<noteq> [] \<and> (\<forall>c\<in>set ws. is_space c) \<longrightarrow>
          expandUnits (ds @ ws @ ascii ''tsp'')
            = ds @ ws @ ascii ''teaspoon'' @ (if parseInt ds = Some 1 then [] else ascii ''s'')
        \<and> expandUnits (ds @ ws @ ascii ''tbsp'')
            = ds @ ws @ ascii ''tablespoon'' @ (if parseInt ds = Some 1 then [] else ascii ''s'')
        \<and> expandUnits (ds @ ws @ ascii ''oz'')
            = ds @ ws @ ascii ''ounce'' @ (if parseInt ds = Some 1 then [] else ascii ''s'')
        \<and> (parseInt ds = Some 1) = reads_as_one ds
        \<and> reads_as_one ds = (\<exists>k. ds = replicate k 48 @ [49]))"
proof -
  have s: "ascii ''s'' = [115]" by (simp add: ascii_def)
  have e: "expandUnits measure_s
       = (if measure_s = [] then []
          else trim (spec_plurals (run_passes unit_passes (run_passes fraction_passes measure_s))))"
    by (simp add: expandUnits_def plural_passes_pluralized)
  have q: "expandUnits (ds @ ws @ ascii ''tsp'')
            = ds @ ws @ ascii ''teaspoon'' @ (if parseInt ds = Some 1 then [] else ascii ''s'')
        \<and> expandUnits (ds @ ws @ ascii ''tbsp'')
            = ds @ ws @ ascii ''tablespoon'' @ (if parseInt ds = Some 1 then [] else ascii ''s'')
        \<and> expandUnits (ds @ ws @ ascii ''oz'')
            = ds @ ws @ ascii ''ounce'' @ (if parseInt ds = Some 1 then [] else ascii ''s'')
        \<and> (parseInt ds = Some 1) = reads_as_one ds
        \<and> reads_as_one ds = (\<exists>k. ds = replicate k 48 @ [49])"
    if a: "ds \<noteq> []" "\<forall>d\<in>set ds. is_digit d" "ws \<noteq> []" "\<forall>c\<in>set ws. is_space c" for ds ws
    unfolding s
    using expandUnits_quantity_unit(1,2,3) [OF a] parseInt_one [OF a(1,2)] reads_as_one_iff [of ds]
    by simp
  show ?thesis
    by (intro conjI allI impI) (use plural_passes_pluralized e q in blast)+
qed

theorem expandUnits_pluralizes_witness:
  "expandUnits (ascii ''1 tsp'') = ascii ''1 teaspoon''
   \<and> expandUnits (ascii ''2 tsp'') = ascii ''2 teaspoons''
   \<and> expandUnits (ascii ''12 oz'') = ascii ''12 ounces''
   \<and> run_passes plural_passes (ascii ''Add 2 Teaspoon sugar, 01 ounce salt'')
       = ascii ''Add 2 Teaspoons sugar, 01 ounce salt''"
proof -
  note fam = expandUnits_pluralizes [THEN conjunct2, THEN conjunct2, rule_format]
  have "spec_plurals (ascii ''Add 2 Teaspoon sugar, 01 ounce salt'')
          = ascii ''Add 2 Teaspoons sugar, 01 ounce salt''"
    by (simp add: spec_plurals_def pluralize.simps quantity_at_def word_follows_def
        reads_as_one_def Let_def ascii_def char_class_defs)
  then have mixed: "run_passes plural_passes (ascii ''Add 2 Teaspoon sugar, 01 ounce salt'')
       = ascii ''Add 2 Teaspoons sugar, 01 ounce salt''"
    using expandUnits_pluralizes [THEN conjunct1, of "ascii ''Add 2 Teaspoon sugar, 01 ounce salt''"]
    by simp
  have p: "parseInt [49] = Some 1" "parseInt [50] \<noteq> Some 1" "parseInt [49, 50] \<noteq> Some 1"
    by (simp_all add: parseInt_def is_digit_def is_space_def)
  have "expandUnits ([49] @ [32] @ ascii ''tsp'') = ascii ''1 teaspoon''"
    using fam [of "[49]" "[32]"] p
    by (simp add: is_digit_def is_space_def) (simp add: ascii_def)
  moreover have "expandUnits ([50] @ [32] @ ascii ''tsp'') = ascii ''2 teaspoons''"
    using fam [of "[50]" "[32]"] p
    by (simp add: is_digit_def is_space_def) (simp add: ascii_def)
  moreover have "expandUnits ([49, 50] @ [32] @ ascii ''oz'') = ascii ''12 ounces''"
    using fam [of "[49, 50]" "[32]"] p
    by (simp add: is_digit_def is_space_def) (simp add: ascii_def)
  ultimately show ?thesis using mixed by (simp add: ascii_def)
qed

text \<open>
  C3 as stated fails twice. The digit sequence \<open>01\<close> is not the string \<open>1\<close>, and the unit
  stays singular: the test is \<open>parseInt(num) === 1\<close>. And after the digit sequence \<open>2\<close>
  the expanded word gets no \<open>s\<close> when an \<open>s\<close> follows it: the pattern ends in \<open>(?!s)\<close>.
\<close>

theorem expandUnits_zero_one_singular:
  "expandUnits (ascii ''01 tsp'') = ascii ''01 teaspoon''
   \<and> expandUnits (ascii ''2 tsp.salt'') = ascii ''2 teaspoonsalt''"
  by (simp add: expander_defs char_class_defs regex_eval)

subsection \<open>Running the expander twice\<close>







subsection \<open>The fraction passes, patterns against description\<close>

lemma is_prefix_append: "is_prefix w xs = (\<exists>v. xs = w @ v)"
  by (induction w xs rule: is_prefix.induct) auto

lemma is_prefix_Nil: "is_prefix w [] = (w = [])"
  by (cases w) simp_all

lemma is_prefix_length: "is_prefix w xs \<Longrightarrow> length w \<le> length xs"
  by (auto simp: is_prefix_append)

lemma m_Str_literal:
  "m (Str w r) False k (MState p xs c)
     = (if is_prefix w xs
        then m r False k (MState (prev_after p w) (drop (length w) xs) c)
        else None)"
proof (induction w arbitrary: p xs)
  case Nil
  then show ?case by (simp add: prev_after_def)
next
  case step: (Cons a w)
  show ?case
  proof (cases xs)
    case Nil
    then show ?thesis by simp
  next
    case (Cons x zs)
    then show ?thesis using step.IH [of "Some x" zs] by (auto simp: prev_after_Cons)
  qed
qed

lemma match_at_literal:
  "match_at (Str w Eps) False p xs = (if is_prefix w xs then Some (length w, None) else None)"
proof (cases "is_prefix w xs")
  case True
  then have "length xs - (length xs - length w) = length w"
    using is_prefix_length [of w xs] by simp
  then show ?thesis using True by (simp add: match_at_def m_Str_literal)
next
  case False
  then show ?thesis by (simp add: match_at_def m_Str_literal)
qed

lemma replace_from_literal:
  "w \<noteq> [] \<Longrightarrow> replace_from (Str w Eps) False (const_repl g) p xs = replace_all w g xs"
proof (induction w g xs arbitrary: p rule: replace_all.induct)
  case (1 pat rep xs)
  note u = replace_from.simps [of "Str pat Eps" False "const_repl rep" p xs]
    replace_all.simps [of pat rep xs]
  show ?case
  proof (cases xs)
    case Nil
    then show ?thesis unfolding u using "1.prems" by (simp add: match_at_literal is_prefix_Nil)
  next
    case (Cons c cs)
    show ?thesis
    proof (cases "is_prefix pat xs")
      case True
      have "replace_from (Str pat Eps) False (const_repl rep) q (drop (length pat) xs)
              = replace_all pat rep (drop (length pat) xs)" for q
        using "1.IH"(1) [OF Cons _ "1.prems"] "1.prems" True by simp
      then show ?thesis unfolding u using Cons True "1.prems"
        by (simp add: match_at_literal const_repl_def)
    next
      case False
      have "replace_from (Str pat Eps) False (const_repl rep) q cs = replace_all pat rep cs" for q
        using "1.IH"(2) [OF Cons _ "1.prems"] False by simp
      then show ?thesis unfolding u using Cons False by (simp add: match_at_literal)
    qed
  qed
qed

lemma fraction_passes_all: "run_passes fraction_passes s = spec_fractions s"
proof -
  have "replace_g (fraction_re w) False (const_repl g) t = replace_all (ascii w) g t"
    if "ascii w \<noteq> []" for w g t
    using that by (simp add: replace_g_def fraction_re_def replace_from_literal)
  then show ?thesis
    by (simp add: run_passes_def fraction_passes_def spec_fractions_def vulgar_fractions_def
        ascii_def)
qed

text \<open>After the substitution no occurrence of a replaced text is left.\<close>

lemma includes_str_Cons: "includes_str xs w \<Longrightarrow> includes_str (c # xs) w"
  by simp

lemma includes_str_drop: "includes_str (drop n xs) w \<Longrightarrow> includes_str xs w"
proof (induction xs arbitrary: n)
  case Nil
  then show ?case by simp
next
  case (Cons x xs)
  then show ?case by (cases n) auto
qed

lemma is_prefix_includes: "is_prefix w xs \<Longrightarrow> includes_str xs w"
  by (cases xs) auto

lemma replace_all_prefix:
  "is_prefix w (replace_all q [g] xs) \<Longrightarrow> g \<notin> set w \<Longrightarrow> is_prefix w xs"
proof (induction q "[g]" xs arbitrary: w rule: replace_all.induct)
  case (1 q xs)
  note u = replace_all.simps [of q "[g]" xs]
  show ?case
  proof (cases w)
    case Nil
    then show ?thesis by simp
  next
    case w: (Cons a w')
    show ?thesis
    proof (cases xs)
      case Nil
      then show ?thesis using "1.prems"(1) w unfolding u by simp
    next
      case (Cons c cs)
      show ?thesis
      proof (cases "q \<noteq> [] \<and> is_prefix q xs")
        case True
        then show ?thesis using "1.prems" w Cons unfolding u by auto
      next
        case False
        then have "a = c" "is_prefix w' (replace_all q [g] cs)"
          using "1.prems"(1) w Cons unfolding u by auto
        moreover have "g \<notin> set w'" using "1.prems"(2) w by simp
        ultimately show ?thesis using "1.hyps"(2) [OF Cons False] w Cons by simp
      qed
    qed
  qed
qed

lemma replace_all_keeps_absent:
  "includes_str (replace_all q [g] xs) w \<Longrightarrow> g \<notin> set w \<Longrightarrow> w \<noteq> [] \<Longrightarrow> includes_str xs w"
proof (induction q "[g]" xs rule: replace_all.induct)
  case (1 q xs)
  note u = replace_all.simps [of q "[g]" xs]
  obtain a w' where w: "w = a # w'" using "1.prems"(3) by (cases w) auto
  show ?case
  proof (cases xs)
    case Nil
    then show ?thesis using "1.prems"(1) w unfolding u by simp
  next
    case (Cons c cs)
    show ?thesis
    proof (cases "q \<noteq> [] \<and> is_prefix q xs")
      case True
      then have "includes_str (replace_all q [g] (drop (length q) xs)) w"
        using "1.prems"(1,2) w Cons unfolding u by auto
      then have "includes_str (drop (length q) xs) w"
        using "1.hyps"(1) [OF Cons True] "1.prems"(2,3) by simp
      then show ?thesis by (rule includes_str_drop)
    next
      case False
      then have r: "replace_all q [g] xs = c # replace_all q [g] cs" using Cons unfolding u by auto
      from "1.prems"(1) have "is_prefix w (replace_all q [g] xs)
                              \<or> includes_str (replace_all q [g] cs) w"
        unfolding r by simp
      then show ?thesis
      proof
        assume "is_prefix w (replace_all q [g] xs)"
        then have "is_prefix w xs" using "1.prems"(2) by (rule replace_all_prefix)
        then show ?thesis by (rule is_prefix_includes)
      next
        assume "includes_str (replace_all q [g] cs) w"
        then have "includes_str cs w" using "1.hyps"(2) [OF Cons False] "1.prems"(2,3) by simp
        then show ?thesis using Cons by simp
      qed
    qed
  qed
qed

lemma replace_all_removes:
  "g \<notin> set q \<Longrightarrow> q \<noteq> [] \<Longrightarrow> \<not> includes_str (replace_all q [g] xs) q"
proof (induction q "[g]" xs rule: replace_all.induct)
  case (1 q xs)
  note u = replace_all.simps [of q "[g]" xs]
  obtain a q' where q: "q = a # q'" using "1.prems"(2) by (cases q) auto
  show ?case
  proof (cases xs)
    case Nil
    then show ?thesis unfolding u using q by simp
  next
    case (Cons c cs)
    show ?thesis
    proof (cases "q \<noteq> [] \<and> is_prefix q xs")
      case True
      have "\<not> includes_str (replace_all q [g] (drop (length q) xs)) q"
        using "1.hyps"(1) [OF Cons True] "1.prems" by simp
      moreover have "replace_all q [g] xs = g # replace_all q [g] (drop (length q) xs)"
        using Cons True unfolding u by simp
      moreover have "\<not> is_prefix q (g # zs)" for zs using "1.prems"(1) q by auto
      ultimately show ?thesis by simp
    next
      case False
      then have r: "replace_all q [g] xs = c # replace_all q [g] cs" using Cons unfolding u by auto
      have "\<not> includes_str (replace_all q [g] cs) q"
        using "1.hyps"(2) [OF Cons False] "1.prems" by simp
      moreover have "\<not> is_prefix q (replace_all q [g] xs)"
        using replace_all_prefix [of q q g xs] "1.prems" False by auto
      ultimately show ?thesis unfolding r by simp
    qed
  qed
qed

lemma substitutions_remove:
  assumes "\<forall>(w, g)\<in>set ps. w \<noteq> [] \<and> (\<forall>(w', g')\<in>set ps. g' \<notin> set w)"
  shows "\<forall>(w, g)\<in>set ps. \<not> includes_str (foldl (\<lambda>t (w, g). replace_all w [g] t) s ps) w"
  using assms
proof (induction ps rule: rev_induct)
  case Nil
  then show ?case by simp
next
  case (snoc wg ps)
  obtain w g where wg: "wg = (w, g)" by (cases wg)
  let ?t = "foldl (\<lambda>t (w, g). replace_all w [g] t) s ps"
  have f: "foldl (\<lambda>t (w, g). replace_all w [g] t) s (ps @ [wg]) = replace_all w [g] ?t"
    by (simp add: wg)
  have own: "\<not> includes_str (replace_all w [g] ?t) w"
    by (rule replace_all_removes) (use snoc.prems wg in auto)
  have earlier: "\<not> includes_str (replace_all w [g] ?t) w'" if "(w', g') \<in> set ps" for w' g'
  proof
    assume "includes_str (replace_all w [g] ?t) w'"
    moreover have "g \<notin> set w'" "w' \<noteq> []" using snoc.prems that wg by auto
    ultimately have "includes_str ?t w'" by (rule replace_all_keeps_absent)
    moreover have "\<forall>(w, g)\<in>set ps. \<not> includes_str ?t w"
      by (rule snoc.IH) (use snoc.prems in auto)
    ultimately show False using that by auto
  qed
  show ?case unfolding f using own earlier wg by auto
qed

lemma spec_fractions_clean:
  "list_all (\<lambda>(fraction, glyph). \<not> includes_str (spec_fractions s) (ascii fraction))
     vulgar_fractions"
proof -
  let ?ps = "map (\<lambda>(fraction, glyph). (ascii fraction, glyph)) vulgar_fractions"
  have e: "spec_fractions s = foldl (\<lambda>t (w, g). replace_all w [g] t) s ?ps"
    by (simp add: spec_fractions_def vulgar_fractions_def)
  have "\<forall>(w, g)\<in>set ?ps. w \<noteq> [] \<and> (\<forall>(w', g')\<in>set ?ps. g' \<notin> set w)"
    by (simp add: vulgar_fractions_def ascii_def)
  from substitutions_remove [OF this, of s]
  show ?thesis unfolding e [symmetric] by (simp add: vulgar_fractions_def)
qed

text \<open>
  C9. For every measure, the six fraction passes of the source replace every occurrence
  of each of the six ASCII fractions by its glyph, exactly as the description-level
  substitution does; no ASCII fraction is left in the text they produce; and the unit
  passes and the plural passes work on that text, so the fractions are substituted
  before any unit word is expanded. The empty measure is returned as it is;
  \<open>expand("1/2 cup")\<close> is the glyph U+00BD followed by \<open>" cup"\<close>; two fractions in one
  measure are both replaced. In \<open>"1/2tsp"\<close> the unit is expanded only because the glyph,
  unlike the digit 2, is not a word character.
\<close>

theorem expandUnits_fractions_first:
  "run_passes fraction_passes measure_s = spec_fractions measure_s
   \<and> list_all (\<lambda>(fraction, glyph).
          \<not> includes_str (spec_fractions measure_s) (ascii fraction)) vulgar_fractions
   \<and> expandUnits measure_s
       = (if measure_s = [] then []
          else trim (run_passes plural_passes
                 (run_passes unit_passes (spec_fractions measure_s))))
   \<and> expandUnits [] = []
   \<and> expandUnits (ascii ''1/2 cup'') = 189 # ascii '' cup''
   \<and> expandUnits (ascii ''1/2 - 3/4 cup'') = 189 # ascii '' - '' @ 190 # ascii '' cup''
   \<and> expandUnits (ascii ''1/2 to 1/2 cup'') = 189 # ascii '' to '' @ 189 # ascii '' cup''
   \<and> expandUnits (ascii ''1/2tsp'') = 189 # ascii ''teaspoon''"
proof -
  have e: "expandUnits measure_s
       = (if measure_s = [] then []
          else trim (run_passes plural_passes
                 (run_passes unit_passes (spec_fractions measure_s))))"
    by (simp add: expandUnits_def fraction_passes_all)
  have ex: "expandUnits (ascii ''1/2 cup'') = 189 # ascii '' cup''"
    "expandUnits (ascii ''1/2tsp'') = 189 # ascii ''teaspoon''"
    by (simp_all add: expander_defs char_class_defs regex_eval)
  have ex2: "expandUnits (ascii ''1/2 - 3/4 cup'') = 189 # ascii '' - '' @ 190 # ascii '' cup''"
    "expandUnits (ascii ''1/2 to 1/2 cup'') = 189 # ascii '' to '' @ 189 # ascii '' cup''"
    by (simp_all add: expander_defs char_class_defs regex_eval)
  have em: "expandUnits [] = []" by (simp add: expandUnits_def)
  show ?thesis
    by (intro conjI) (fact fraction_passes_all spec_fractions_clean e em ex ex2)+
qed

theorem expandUnits_fractions_first_witness:
  "run_passes fraction_passes (ascii ''1/2 to 1/2 or 3/4 cup'')
     = 189 # ascii '' to '' @ 189 # ascii '' or '' @ 190 # ascii '' cup''
   \<and> \<not> includes_str (run_passes fraction_passes (ascii ''1/2 to 1/2 or 3/4 cup'')) (ascii ''1/2'')
   \<and> expandUnits (ascii ''1/2 to 1/2 or 3/4 cup'')
     = 189 # ascii '' to '' @ 189 # ascii '' or '' @ 190 # ascii '' cup''"
proof -
  have g: "spec_fractions (ascii ''1/2 to 1/2 or 3/4 cup'')
             = 189 # ascii '' to '' @ 189 # ascii '' or '' @ 190 # ascii '' cup''"
    by (simp add: spec_fractions_def vulgar_fractions_def replace_all.simps ascii_def)
  have u: "trim (run_passes plural_passes (run_passes unit_passes
             (189 # ascii '' to '' @ 189 # ascii '' or '' @ 190 # ascii '' cup'')))
           = 189 # ascii '' to '' @ 189 # ascii '' or '' @ 190 # ascii '' cup''"
    by (simp add: expander_defs char_class_defs regex_eval)
  have n: "ascii ''1/2 to 1/2 or 3/4 cup'' \<noteq> []" by (simp add: ascii_def)
  show ?thesis
    using expandUnits_fractions_first [of "ascii ''1/2 to 1/2 or 3/4 cup''"] n
    unfolding g u by (simp add: vulgar_fractions_def)
qed

section \<open>Rounding to a double\<close>

lemma excess_bits_small: "N < 2 ^ 53 \<Longrightarrow> excess_bits N = 0"
  by (subst excess_bits.simps) simp

lemma excess_bits_large: "\<not> N < 2 ^ 53 \<Longrightarrow> excess_bits N = Suc (excess_bits (N div 2))"
  by (subst excess_bits.simps) simp

lemma div_pow_Suc: "N div 2 ^ Suc s = (N div 2) div 2 ^ s" for N :: nat
  by (simp only: power_Suc div_mult2_eq)

lemma excess_bits_upper: "N div 2 ^ excess_bits N < 2 ^ 53"
proof (induction N rule: excess_bits.induct)
  case (1 N)
  show ?case
  proof (cases "N < 2 ^ 53")
    case True
    then show ?thesis by (simp add: excess_bits_small)
  next
    case False
    have "(N div 2) div 2 ^ excess_bits (N div 2) < 2 ^ 53" using 1 False by blast
    then show ?thesis
      unfolding excess_bits_large [OF False] div_pow_Suc .
  qed
qed

lemma excess_bits_lower: "0 < excess_bits N \<Longrightarrow> 2 ^ 52 \<le> N div 2 ^ excess_bits N"
proof (induction N rule: excess_bits.induct)
  case (1 N)
  show ?case
  proof (cases "N < 2 ^ 53")
    case True
    then show ?thesis using "1.prems" by (simp add: excess_bits_small)
  next
    case False
    show ?thesis
    proof (cases "N div 2 < 2 ^ 53")
      case True
      have p: "(2::nat) ^ 53 = 2 * 2 ^ 52" by simp
      have "(2::nat) ^ 52 \<le> N div 2" using False unfolding p by linarith
      then show ?thesis
        unfolding excess_bits_large [OF False] div_pow_Suc excess_bits_small [OF True] by simp
    next
      case n: False
      have "0 < excess_bits (N div 2)" using excess_bits_large [OF n] by simp
      then have "2 ^ 52 \<le> (N div 2) div 2 ^ excess_bits (N div 2)" using 1 False by blast
      then show ?thesis
        unfolding excess_bits_large [OF False] div_pow_Suc .
    qed
  qed
qed


lemma round_to_double_cases:
  "round_to_double N = (N div 2 ^ excess_bits N) * 2 ^ excess_bits N
     \<and> 2 * (N mod 2 ^ excess_bits N) \<le> 2 ^ excess_bits N
   \<or> round_to_double N = (N div 2 ^ excess_bits N + 1) * 2 ^ excess_bits N
     \<and> 2 ^ excess_bits N \<le> 2 * (N mod 2 ^ excess_bits N)"
  by (auto simp: round_to_double_def Let_def)

lemma round_to_double_small: "excess_bits N = 0 \<Longrightarrow> round_to_double N = N"
  by (simp add: round_to_double_def)

lemma round_to_double_near:
  "2 * round_to_double N \<le> 2 * N + 2 ^ excess_bits N
   \<and> 2 * N \<le> 2 * round_to_double N + 2 ^ excess_bits N
   \<and> (N div 2 ^ excess_bits N) * 2 ^ excess_bits N \<le> round_to_double N"
proof -
  define s where "s = excess_bits N"
  define q where "q = N div 2 ^ s"
  define r where "r = N mod 2 ^ s"
  have N: "N = q * 2 ^ s + r" using div_mult_mod_eq [of N "2 ^ s"] by (simp add: q_def r_def)
  have r: "r < 2 ^ s" by (simp add: r_def)
  from round_to_double_cases [of N]
  have "round_to_double N = q * 2 ^ s \<and> 2 * r \<le> 2 ^ s
      \<or> round_to_double N = q * 2 ^ s + 2 ^ s \<and> 2 ^ s \<le> 2 * r"
    by (simp add: s_def q_def r_def add.commute)
  then show ?thesis
    unfolding s_def [symmetric] q_def [symmetric] using N r by auto
qed

lemma excess_bits_scale: "0 < excess_bits N \<Longrightarrow> 2 ^ 52 * 2 ^ excess_bits N \<le> N"
proof -
  assume "0 < excess_bits N"
  then have "2 ^ 52 * 2 ^ excess_bits N \<le> (N div 2 ^ excess_bits N) * 2 ^ excess_bits N"
    using excess_bits_lower [of N] by simp
  also have "\<dots> \<le> N" by simp
  finally show ?thesis .
qed

text \<open>The relative error of the rounding is at most \<open>2^-53\<close>.\<close>

lemma round_to_double_error:
  "2 ^ 53 * round_to_double N \<le> (2 ^ 53 + 1) * N
   \<and> (2 ^ 53 - 1) * round_to_double N \<le> 2 ^ 53 * N"
proof (cases "excess_bits N = 0")
  case True
  then show ?thesis by (simp add: round_to_double_small)
next
  case False
  then have sc: "2 ^ 52 * 2 ^ excess_bits N \<le> N" using excess_bits_scale by simp
  note near = round_to_double_near [of N]
  define R where "R = round_to_double N"
  define E where "E = (2::nat) ^ excess_bits N"
  have a: "2 * R \<le> 2 * N + E" "2 * N \<le> 2 * R + E" "4503599627370496 * E \<le> N"
    using near sc by (simp_all add: R_def E_def)
  have "9007199254740992 * R \<le> 9007199254740993 * N" using a by linarith
  moreover have "9007199254740991 * R \<le> 9007199254740992 * N" using a by linarith
  ultimately show ?thesis by (simp add: R_def)
qed

text \<open>An integer that is a double is not crossed by the rounding.\<close>

lemma round_to_double_mono:
  assumes "J \<le> 2 ^ 53" and "J * 2 ^ k \<le> N"
  shows "J * 2 ^ k \<le> round_to_double N"
proof (cases "excess_bits N = 0")
  case True
  then show ?thesis using assms by (simp add: round_to_double_small)
next
  case False
  define s where "s = excess_bits N"
  define q where "q = N div 2 ^ s"
  have q: "2 ^ 52 \<le> q" using excess_bits_lower [of N] False by (simp add: q_def s_def)
  have R: "q * 2 ^ s \<le> round_to_double N"
    using round_to_double_near [of N] by (simp add: q_def s_def)
  have "J * 2 ^ k \<le> q * 2 ^ s"
  proof (cases "s \<le> k")
    case True
    then have k: "(2::nat) ^ k = 2 ^ (k - s) * 2 ^ s" by (simp add: power_add [symmetric])
    have "(J * 2 ^ (k - s)) * 2 ^ s \<le> N" using assms(2) k by (simp add: mult.assoc)
    then have "J * 2 ^ (k - s) \<le> q"
      unfolding q_def by (simp add: less_eq_div_iff_mult_less_eq)
    then have "(J * 2 ^ (k - s)) * 2 ^ s \<le> q * 2 ^ s" by (rule mult_le_mono1)
    then show ?thesis using k by (simp add: mult.assoc)
  next
    case f: False
    then have "s = (s - k - 1) + 1 + k" by simp
    then have "(2::nat) ^ s = 2 ^ ((s - k - 1) + 1 + k)" by simp
    also have "\<dots> = 2 ^ (s - k - 1) * 2 * 2 ^ k" by (simp only: power_add power_one_right)
    finally have s: "(2::nat) ^ s = 2 ^ (s - k - 1) * 2 * 2 ^ k" .
    have "J \<le> 2 ^ 52 * 2" using assms(1) by simp
    also have "\<dots> \<le> q * 2" using q by simp
    also have "\<dots> \<le> q * (2 ^ (s - k - 1) * 2)" by simp
    finally have "J * 2 ^ k \<le> (q * (2 ^ (s - k - 1) * 2)) * 2 ^ k" by (rule mult_le_mono1)
    then show ?thesis using s by (simp add: mult.assoc)
  qed
  then show ?thesis using R by simp
qed



lemma unit_double_bounds:
  "significand r < 2 ^ 53" "significand r < 2 ^ exponent r" "exponent r \<le> 1074"
  using Rep_unit_double [of r] by (simp_all add: significand_def exponent_def)

lemma double_value_bounds: "0 \<le> double_value r \<and> double_value r < 1"
proof -
  have "real (significand r) < 2 ^ exponent r"
    using unit_double_bounds(2) [of r] by (metis of_nat_less_iff of_nat_numeral of_nat_power)
  then show ?thesis by (simp add: double_value_def)
qed

lemma random_index_less:
  assumes "0 < n"
  shows "random_index r n < n"
proof -
  define m where "m = significand r"
  define k where "k = exponent r"
  define R where "R = round_to_double (m * n)"
  define K where "K = (2::nat) ^ k"
  define P where "P = (2::nat) ^ 53"
  have m: "m < P" "m < K" using unit_double_bounds by (simp_all add: m_def k_def K_def P_def)
  have e: "P * R \<le> ((P + 1) * m) * n"
    using round_to_double_error [of "m * n"] by (simp only: R_def P_def mult.assoc)
  have a: "(P + 1) * m < P * K"
  proof -
    have "m \<le> K - 1" using m(2) by simp
    then have le: "P * m \<le> P * (K - 1)" by (rule mult_le_mono2)
    have "(P + 1) * m = P * m + m" by simp
    also have "\<dots> \<le> P * (K - 1) + m" using le by simp
    also have "\<dots> < P * (K - 1) + P" using m(1) by simp
    also have "\<dots> = P * K" using m(2) by (cases K) simp_all
    finally show ?thesis .
  qed
  have "((P + 1) * m) * n < (P * K) * n" using a assms by (rule mult_less_mono1)
  with e have "P * R < (P * K) * n" by (rule le_less_trans)
  then have "P * R < P * (K * n)" by (simp only: mult.assoc)
  then have "R < n * K" by (simp add: mult.commute)
  then have "R div K < n" using less_mult_imp_div_less by blast
  then show ?thesis by (simp add: random_index_def R_def m_def k_def K_def)
qed

lemma div_between:
  fixes K :: nat
  shows "0 < K \<Longrightarrow> (R div K = j) = (j * K \<le> R \<and> R < (j + 1) * K)"
proof
  assume "0 < K" and "R div K = j"
  then show "j * K \<le> R \<and> R < (j + 1) * K"
    using div_times_less_eq_dividend [of R K] dividend_less_div_times [of K R] by auto
next
  assume "0 < K" and "j * K \<le> R \<and> R < (j + 1) * K"
  then show "R div K = j" by (intro div_nat_eqI) (simp_all add: mult.commute)
qed



text \<open>
  The index in terms of the exact product \<open>N / K\<close>: it is \<open>j\<close> when the product lies in
  \<open>[j, (j + 1) (1 - 2^-53))\<close>, and only when it lies in \<open>[j (1 - 2^-53), j + 1)\<close>.
\<close>

lemma round_index_sufficient:
  fixes K :: nat
  assumes J: "j \<le> 2 ^ 53" and K: "K = 2 ^ k"
    and lo: "j * K \<le> N" and hi: "2 ^ 53 * N < (2 ^ 53 - 1) * ((j + 1) * K)"
  shows "round_to_double N div K = j"
proof -
  define R where "R = round_to_double N"
  define P where "P = (2::nat) ^ 53"
  have P: "1 < P" by (simp add: P_def)
  have e: "P * R \<le> (P + 1) * N"
    using round_to_double_error [of N] by (simp add: R_def P_def)
  have hi': "P * N < (P - 1) * ((j + 1) * K)" using hi by (simp only: P_def)
  have lower: "j * K \<le> R"
    using round_to_double_mono [OF J, of k N] lo by (simp add: K R_def)
  have "(P - 1) * (P * R) \<le> (P - 1) * ((P + 1) * N)" using e by (rule mult_le_mono2)
  also have "(P - 1) * ((P + 1) * N) = ((P - 1) * (P + 1)) * N" by (simp only: mult.assoc)
  also have "(P - 1) * (P + 1) = P * P - 1" using P by (simp add: algebra_simps)
  also have "(P * P - 1) * N \<le> (P * P) * N" by (rule mult_le_mono1) simp
  also have "(P * P) * N = P * (P * N)" by (simp only: mult.assoc)
  also have "P * (P * N) < P * ((P - 1) * ((j + 1) * K))"
    using hi' P by (simp only: mult_less_cancel1) simp
  finally have "(P - 1) * (P * R) < P * ((P - 1) * ((j + 1) * K))" .
  then have "(P * (P - 1)) * R < (P * (P - 1)) * ((j + 1) * K)"
    by (simp only: mult.assoc mult.left_commute)
  then have upper: "R < (j + 1) * K" by (simp only: mult_less_cancel1)
  have "0 < K" by (simp add: K)
  then show ?thesis using lower upper by (simp add: div_between R_def)
qed

lemma round_index_necessary:
  fixes K :: nat
  assumes J: "j + 1 \<le> 2 ^ 53" and K: "K = 2 ^ k"
    and j: "round_to_double N div K = j"
  shows "(2 ^ 53 - 1) * (j * K) \<le> 2 ^ 53 * N \<and> N < (j + 1) * K"
proof -
  define R where "R = round_to_double N"
  define P where "P = (2::nat) ^ 53"
  have e: "(P - 1) * R \<le> P * N"
    using round_to_double_error [of N] by (simp add: R_def P_def)
  have "0 < K" by (simp add: K)
  then have b: "j * K \<le> R" "R < (j + 1) * K" using j by (simp_all add: div_between R_def)
  have "(P - 1) * (j * K) \<le> (P - 1) * R" using b(1) by (rule mult_le_mono2)
  also have "\<dots> \<le> P * N" by (rule e)
  finally have a: "(P - 1) * (j * K) \<le> P * N" .
  have c: "N < (j + 1) * K"
  proof (rule ccontr)
    assume "\<not> N < (j + 1) * K"
    then have "(j + 1) * 2 ^ k \<le> N" by (simp add: K)
    from round_to_double_mono [OF J this] b(2) show False by (simp add: R_def K)
  qed
  show ?thesis using a c by (simp only: P_def)
qed



lemma double_product:
  "double_value r * real n = real (significand r * n) / real ((2::nat) ^ exponent r)"
  by (simp add: double_value_def)

lemma quotient_compare:
  fixes N K j :: nat
  assumes "0 < K"
  shows "(real j \<le> real N / real K) = (j * K \<le> N)"
    and "(real N / real K < real j + 1) = (N < (j + 1) * K)"
    and "(real N / real K < (real j + 1) * (1 - 1 / 2 ^ 53))
           = (2 ^ 53 * N < (2 ^ 53 - 1) * ((j + 1) * K))"
    and "(real j * (1 - 1 / 2 ^ 53) \<le> real N / real K)
           = ((2 ^ 53 - 1) * (j * K) \<le> 2 ^ 53 * N)"
proof -
  have K: "0 < real K" using assms by simp
  have "(real j \<le> real N / real K) = (real j * real K \<le> real N)"
    using K by (simp add: pos_le_divide_eq)
  also have "\<dots> = (real (j * K) \<le> real N)" by simp
  also have "\<dots> = (j * K \<le> N)" by (simp only: of_nat_le_iff)
  finally show "(real j \<le> real N / real K) = (j * K \<le> N)" .
  have "(real N / real K < real j + 1) = (real N < (real j + 1) * real K)"
    using K by (simp add: pos_divide_less_eq)
  also have "\<dots> = (real N < real ((j + 1) * K))" by (simp add: algebra_simps)
  also have "\<dots> = (N < (j + 1) * K)" by (simp only: of_nat_less_iff)
  finally show "(real N / real K < real j + 1) = (N < (j + 1) * K)" .
  have "(real N / real K < (real j + 1) * (1 - 1 / 2 ^ 53))
          = (real N < ((real j + 1) * (1 - 1 / 2 ^ 53)) * real K)"
    using K by (simp only: pos_divide_less_eq)
  also have "\<dots> = (2 ^ 53 * real N < 2 ^ 53 * (((real j + 1) * (1 - 1 / 2 ^ 53)) * real K))"
    by (rule mult_less_cancel_left_pos [symmetric]) simp
  also have "2 ^ 53 * (((real j + 1) * (1 - 1 / 2 ^ 53)) * real K)
               = real ((2 ^ 53 - 1) * ((j + 1) * K))"
    by (simp add: algebra_simps)
  also have "2 ^ 53 * real N = real (2 ^ 53 * N)" by simp
  finally show "(real N / real K < (real j + 1) * (1 - 1 / 2 ^ 53))
           = (2 ^ 53 * N < (2 ^ 53 - 1) * ((j + 1) * K))"
    by (simp only: of_nat_less_iff)
  have "(real j * (1 - 1 / 2 ^ 53) \<le> real N / real K)
          = ((real j * (1 - 1 / 2 ^ 53)) * real K \<le> real N)"
    using K by (simp only: pos_le_divide_eq)
  also have "\<dots> = (2 ^ 53 * ((real j * (1 - 1 / 2 ^ 53)) * real K) \<le> 2 ^ 53 * real N)"
    by (rule mult_le_cancel_left_pos [symmetric]) simp
  also have "2 ^ 53 * ((real j * (1 - 1 / 2 ^ 53)) * real K) = real ((2 ^ 53 - 1) * (j * K))"
    by (simp add: algebra_simps)
  also have "2 ^ 53 * real N = real (2 ^ 53 * N)" by simp
  finally show "(real j * (1 - 1 / 2 ^ 53) \<le> real N / real K)
           = ((2 ^ 53 - 1) * (j * K) \<le> 2 ^ 53 * N)"
    by (simp only: of_nat_le_iff)
qed



lemma random_index_interval:
  assumes n: "0 < n" "n \<le> 2 ^ 53"
  shows "real j \<le> double_value r * real n
           \<Longrightarrow> double_value r * real n < (real j + 1) * (1 - 1 / 2 ^ 53)
           \<Longrightarrow> random_index r n = j"
    and "random_index r n = j
           \<Longrightarrow> real j * (1 - 1 / 2 ^ 53) \<le> double_value r * real n
               \<and> double_value r * real n < real j + 1"
proof -
  define N where "N = significand r * n"
  define K where "K = (2::nat) ^ exponent r"
  have K: "0 < K" by (simp add: K_def)
  note q = quotient_compare [OF K]
  have p: "double_value r * real n = real N / real K"
    by (simp only: double_product N_def K_def)
  have idx: "random_index r n = round_to_double N div K"
    by (simp add: random_index_def N_def K_def)
  {
    assume "real j \<le> double_value r * real n"
      and "double_value r * real n < (real j + 1) * (1 - 1 / 2 ^ 53)"
    then have lo: "j * K \<le> N" and hi: "2 ^ 53 * N < (2 ^ 53 - 1) * ((j + 1) * K)"
      unfolding p by (simp_all only: q)
    have "significand r * n < K * n"
      using unit_double_bounds(2) [of r] n(1) unfolding K_def by (rule mult_less_mono1)
    with lo have "j * K < K * n" unfolding N_def by (rule le_less_trans)
    then have "j * K < n * K" by (simp only: mult.commute)
    then have "j < n" by (simp only: mult_less_cancel2)
    then have "j \<le> 2 ^ 53" using n(2) by simp
    from round_index_sufficient [OF this K_def lo hi] show "random_index r n = j"
      by (simp only: idx)
  }
  {
    assume j: "random_index r n = j"
    then have "j + 1 \<le> 2 ^ 53" using random_index_less [OF n(1), of r] n(2) by simp
    from round_index_necessary [OF this K_def, of N] j idx
    have "(2 ^ 53 - 1) * (j * K) \<le> 2 ^ 53 * N \<and> N < (j + 1) * K" by simp
    then show "real j * (1 - 1 / 2 ^ 53) \<le> double_value r * real n
               \<and> double_value r * real n < real j + 1"
      unfolding p by (simp only: q)
  }
qed




lemma Rep_half: "significand half = 1" "exponent half = 1"
  by (simp_all add: half_def significand_def exponent_def Abs_unit_double_inverse)

lemma half_idx: "random_index half 5 = 2" "random_index half 4 = 2"
  by (simp_all add: random_index_def Rep_half round_to_double_def excess_bits_small)

lemma half_idx_Suc: "random_index half (Suc (Suc (Suc (Suc 0)))) = 2"
proof -
  have "Suc (Suc (Suc (Suc 0))) = 4" by simp
  then show ?thesis by (simp only: half_idx)
qed

text \<open>
  A product that is rounded up to the next integer: for the double
  \<open>0.5714285714285714 = 2573485501354569 / 2^52\<close> and seven entries the index is 4, while
  the exact product is below 4.
\<close>

lemma random_index_rounds_up:
  "random_index (Abs_unit_double (2573485501354569, 52)) 7 = 4
   \<and> double_value (Abs_unit_double (2573485501354569, 52)) * 7 < 4"
proof -
  have r: "significand (Abs_unit_double (2573485501354569, 52)) = 2573485501354569"
    "exponent (Abs_unit_double (2573485501354569, 52)) = 52"
    by (simp_all add: significand_def exponent_def Abs_unit_double_inverse)
  have "excess_bits 18014398509481983 = Suc (excess_bits (18014398509481983 div 2))"
    by (rule excess_bits_large) simp
  also have "excess_bits (18014398509481983 div 2) = 0" by (rule excess_bits_small) simp
  finally have e: "excess_bits 18014398509481983 = 1" by simp
  show ?thesis by (simp add: random_index_def double_value_def r round_to_double_def e)
qed


section \<open>RecipeFetcher and ImageResolver\<close>

lemma fallback_nonempty: "u \<in> set fallbackImages \<Longrightarrow> u \<noteq> []"
  by (auto simp: fallbackImages_def ascii_def)

lemma length_fallbackImages: "length fallbackImages = 4"
  by (simp add: fallbackImages_def)

lemma try_results_nonempty:
  "try_results h t rs = (Inr (Some u), t') \<Longrightarrow> u \<noteq> []"
proof (induction rs arbitrary: t)
  case Nil
  then show ?case by simp
next
  case (Cons r rs)
  then show ?case
    by (auto simp: Let_def split: option.splits if_splits sum.splits info_data.splits)
qed

lemma try_searches_nonempty:
  "try_searches h t ss = (Inr (Some u), t') \<Longrightarrow> u \<noteq> []"
proof (induction ss arbitrary: t)
  case Nil
  then show ?case by simp
next
  case (Cons s ss)
  then show ?case
    by (auto simp: Let_def split: option.splits if_splits sum.splits prod.splits dest: try_results_nonempty)
qed

lemma getWikimediaImage_cases:
  "getWikimediaImage h t n =
     (case try_searches h t (searchVariations (searchTerm_of h n)) of
        (Inr (Some u), t') \<Rightarrow> (Inr u, t')
      | (other, t') \<Rightarrow> (Inr (fallbackImages ! random_index (math_random h t') 4), t' @ [MathRandom]))"
  by (simp add: getWikimediaImage_def length_fallbackImages split: prod.splits sum.splits option.splits)

lemma getWikimediaImage_Inr:
  "\<exists>u t'. getWikimediaImage h t n = (Inr u, t') \<and> u \<noteq> []"
proof (cases "try_searches h t (searchVariations (searchTerm_of h n))")
  case (Pair a t')
  have fb: "fallbackImages ! random_index (math_random h t') 4 \<noteq> []"
    using random_index_less [of 4 "math_random h t'"] fallback_nonempty length_fallbackImages
    by (metis nth_mem zero_less_numeral)
  show ?thesis
  proof (cases a)
    case (Inl e)
    then show ?thesis using Pair fb by (simp add: getWikimediaImage_cases)
  next
    case (Inr found)
    then show ?thesis
    proof (cases found)
      case None
      then show ?thesis using Pair Inr fb by (simp add: getWikimediaImage_cases)
    next
      case (Some u)
      then show ?thesis using Pair Inr try_searches_nonempty [of h t _ u t'] by (simp add: getWikimediaImage_cases)
    qed
  qed
qed

lemma ingredient_loop_eq:
  "i \<le> 21 \<Longrightarrow> ingredient_loop meal i acc = foldl (\<lambda>a j. push_slot meal j a) acc [i..<21]"
proof (induction meal i acc rule: ingredient_loop.induct)
  case (1 meal i ingredients)
  show ?case
  proof (cases "i \<le> 20")
    case True
    then have "[i..<21] = i # [i+1..<21]" by (simp add: upt_conv_Cons)
    with 1 True show ?thesis by (subst ingredient_loop.simps) simp
  next
    case False
    with 1 have "i = 21" by simp
    then show ?thesis by (subst ingredient_loop.simps) simp
  qed
qed

lemma push_slot_append: "push_slot meal j acc = acc @ push_slot meal j []"
  by (simp add: push_slot_def split: option.splits)

lemma foldl_push_slot:
  "foldl (\<lambda>a j. push_slot meal j a) acc js = acc @ concat (map (\<lambda>j. push_slot meal j []) js)"
proof (induction js arbitrary: acc)
  case Nil
  then show ?case by simp
next
  case (Cons j js)
  show ?case using Cons [of "push_slot meal j acc"] push_slot_append [of meal j acc] by simp
qed

lemma trim_Nil [simp]: "trim [] = []"
  by (simp add: trim_def)

lemma ingredients_of_eq:
  "ingredients_of meal =
     [\<lparr>ing_name = trim s, ing_measure = expandUnits (measure_of (strMeasure meal i))\<rparr>.
        i \<leftarrow> [1..<21], s \<leftarrow> (case strIngredient meal i of None \<Rightarrow> [] | Some x \<Rightarrow> [x]), trim s \<noteq> []]"
proof -
  have "push_slot meal j [] = concat (map (\<lambda>s. if trim s \<noteq> [] then [\<lparr>ing_name = trim s, ing_measure = expandUnits (measure_of (strMeasure meal j))\<rparr>] else []) (case strIngredient meal j of None \<Rightarrow> [] | Some x \<Rightarrow> [x]))" for j
    by (auto simp: push_slot_def non_blank_def split: option.splits)
  then show ?thesis
    by (simp add: ingredients_of_def ingredient_loop_eq foldl_push_slot)
qed

lemma length_ingredients_of:
  "length (ingredients_of meal) = card {i. 1 \<le> i \<and> i \<le> 20 \<and> non_blank (strIngredient meal i)}"
proof -
  have l: "length (push_slot meal j []) = (if non_blank (strIngredient meal j) then 1 else 0)" for j
    by (auto simp: push_slot_def non_blank_def split: option.splits)
  have "length (concat (map (\<lambda>j. push_slot meal j []) js)) = length (filter (\<lambda>j. non_blank (strIngredient meal j)) js)" for js
    by (induction js) (simp_all add: l)
  then have "length (ingredients_of meal) = length (filter (\<lambda>j. non_blank (strIngredient meal j)) [1..<21])"
    by (simp add: ingredients_of_def ingredient_loop_eq foldl_push_slot)
  also have "\<dots> = card (set (filter (\<lambda>j. non_blank (strIngredient meal j)) [1..<21]))"
    by (rule distinct_card [symmetric]) simp
  also have "set (filter (\<lambda>j. non_blank (strIngredient meal j)) [1..<21]) = {i. 1 \<le> i \<and> i \<le> 20 \<and> non_blank (strIngredient meal i)}"
    by auto
  finally show ?thesis .
qed


lemmas host_defs =
  demo_host_def offline_host_def empty_host_def demo_meal_def demo_catalogue_def
  ascii_lower_def

lemmas fetch_defs =
  fetchRecipeDetails_def getRandomDessertRecipe_def fetchDessertRecipes_def
  getWikimediaImage_def searchTerm_of_def searchVariations_def image_url_of_def
  special_re_def spaces_re_def bad_ext_re_def build_recipe_def provided_thumb_def
  non_blank_def measure_of_def tags_of_def youtubeUrl_of_def fallbackImages_def half_idx
  half_idx_Suc  const_repl_def

lemma fetchRecipeDetails_found:
  assumes "get_detail h t mealId = Responds True statusText (Inr data)"
    and "detail_meals data = Some (meal # others)"
  shows "\<exists>img t'. img \<noteq> []
           \<and> (case provided_thumb (strMealThumb meal) of
                 Some thumb \<Rightarrow> img = thumb
               | None \<Rightarrow> fst (getWikimediaImage h (t @ [FetchDetail mealId]) (strMeal meal)) = Inr img)
           \<and> fetchRecipeDetails h t mealId = (Inr (build_recipe meal img), t')"
proof (cases "provided_thumb (strMealThumb meal)")
  case None
  obtain u t' where u: "getWikimediaImage h (t @ [FetchDetail mealId]) (strMeal meal) = (Inr u, t')" "u \<noteq> []"
    using getWikimediaImage_Inr by blast
  show ?thesis using assms None u by (auto simp: fetchRecipeDetails_def)
next
  case (Some img)
  then have "img \<noteq> []" by (auto simp: provided_thumb_def non_blank_def split: if_splits)
  then show ?thesis using assms Some by (auto simp: fetchRecipeDetails_def)
qed

text \<open>
  A lookup answered with \<open>meals: null\<close> (no record for the identifier) does not raise
  \<open>Recipe not found\<close>: \<open>data.meals[0]\<close> is evaluated before the test \<open>!meal\<close> and throws a
  TypeError. The listing is guarded against \<open>null\<close>, the lookup is not.
\<close>

lemma fetchRecipeDetails_null_meals:
  assumes "get_detail h t mealId = Responds True statusText (Inr data)"
    and "detail_meals data = None"
  shows "fst (fetchRecipeDetails h t mealId)
           = Inl (TypeError (ascii ''Cannot read properties of null (reading 0)''))"
  using assms by (simp add: fetchRecipeDetails_def)

lemma fetchRecipeDetails_null_meals_demo:
  "fst (fetchRecipeDetails demo_host [] (ascii ''99999''))
     = Inl (TypeError (ascii ''Cannot read properties of null (reading 0)''))
   \<and> fst (fetchRecipeDetails demo_host [] (ascii ''99999''))
     \<noteq> Inl (Error (ascii ''Recipe not found''))"
  by (simp add: fetchRecipeDetails_def demo_host_def ascii_def)

text \<open>
  C4 (as amended). A detail lookup has these outcomes. A rejected fetch and a body that is
  not JSON are passed on as they are; a response that is not \<open>ok\<close> raises the error with
  the message \<open>Failed to fetch recipe details: ...\<close> (the NetworkError of the
  specification); an empty list of records raises \<open>Recipe not found\<close> (the NotFoundError);
  and a list with a record gives the complete recipe built from the first record: every
  field is set from the record, the ingredients are those of the slots, and the image is
  the thumbnail of the record when that is not blank and otherwise the URL of the image
  resolver, which is never empty and never an error. (The answer \<open>meals: null\<close> is no part
  of the amended claim; the theorem records the TypeError of the lemma above for it.)
\<close>

theorem fetchRecipeDetails_outcomes:
  "(case get_detail h t mealId of
      Rejects e \<Rightarrow> fst (fetchRecipeDetails h t mealId) = Inl e
    | Responds ok statusText body \<Rightarrow>
        if \<not> ok
        then fst (fetchRecipeDetails h t mealId)
               = Inl (Error (ascii ''Failed to fetch recipe details: '' @ statusText))
        else
          (case body of
             Inl e \<Rightarrow> fst (fetchRecipeDetails h t mealId) = Inl e
           | Inr data \<Rightarrow>
               (case detail_meals data of
                  None \<Rightarrow> fst (fetchRecipeDetails h t mealId)
                            = Inl (TypeError (ascii ''Cannot read properties of null (reading 0)''))
                | Some [] \<Rightarrow> fst (fetchRecipeDetails h t mealId)
                               = Inl (Error (ascii ''Recipe not found''))
                | Some (meal # others) \<Rightarrow>
                    (\<exists>img. img \<noteq> []
                       \<and> (case provided_thumb (strMealThumb meal) of
                             Some thumb \<Rightarrow> img = thumb
                           | None \<Rightarrow>
                               fst (getWikimediaImage h (t @ [FetchDetail mealId]) (strMeal meal))
                                 = Inr img)
                       \<and> fst (fetchRecipeDetails h t mealId)
                           = Inr \<lparr>rec_id = idMeal meal, rec_name = strMeal meal, rec_image = img,
                                  rec_instructions = strInstructions meal,
                                  rec_ingredients = ingredients_of meal,
                                  rec_category = strCategory meal, rec_area = strArea meal,
                                  rec_youtubeUrl = youtubeUrl_of (strYoutube meal),
                                  rec_tags = tags_of (strTags meal)\<rparr>))))"
proof (cases "get_detail h t mealId")
  case (Rejects e)
  then show ?thesis by (simp add: fetchRecipeDetails_def)
next
  case (Responds ok statusText body)
  show ?thesis
  proof (cases ok)
    case False
    with Responds show ?thesis by (simp add: fetchRecipeDetails_def)
  next
    case True
    show ?thesis
    proof (cases body)
      case (Inl e)
      with Responds True show ?thesis by (simp add: fetchRecipeDetails_def)
    next
      case (Inr data)
      show ?thesis
      proof (cases "detail_meals data")
        case None
        with Responds True Inr show ?thesis by (simp add: fetchRecipeDetails_def)
      next
        case (Some ms)
        show ?thesis
        proof (cases ms)
          case Nil
          with Responds True Inr Some show ?thesis by (simp add: fetchRecipeDetails_def)
        next
          case (Cons meal others)
          obtain img t' where i: "img \<noteq> []"
            "case provided_thumb (strMealThumb meal) of
               Some thumb \<Rightarrow> img = thumb
             | None \<Rightarrow> fst (getWikimediaImage h (t @ [FetchDetail mealId]) (strMeal meal)) = Inr img"
            "fetchRecipeDetails h t mealId = (Inr (build_recipe meal img), t')"
            using fetchRecipeDetails_found [of h t mealId statusText data meal others]
              Responds True Inr Some Cons by auto
          have "fst (fetchRecipeDetails h t mealId)
                  = Inr \<lparr>rec_id = idMeal meal, rec_name = strMeal meal, rec_image = img,
                         rec_instructions = strInstructions meal,
                         rec_ingredients = ingredients_of meal,
                         rec_category = strCategory meal, rec_area = strArea meal,
                         rec_youtubeUrl = youtubeUrl_of (strYoutube meal),
                         rec_tags = tags_of (strTags meal)\<rparr>"
            using i(3) by (simp add: build_recipe_def)
          with i(1,2) Responds True Inr Some Cons show ?thesis by auto
        qed
      qed
    qed
  qed
qed

text \<open>
  C4 as stated fails: when the fetch itself is rejected, the lookup raises neither of the
  two errors of the claim and returns no recipe.
\<close>

theorem fetchRecipeDetails_rejected_fetch:
  "fst (fetchRecipeDetails offline_host [] (ascii ''52893''))
     = Inl (TypeError (ascii ''Failed to fetch''))"
  by (simp add: fetchRecipeDetails_def offline_host_def)

text \<open>
  C5. When the listing answers with no meals (\<open>null\<close> or an empty list),
  \<open>getRandomDessertRecipe\<close> raises \<open>No dessert recipes found\<close> (the EmptyCatalogError of the
  specification) and the only request made is the listing. Otherwise it draws one random
  number, the index \<open>Math.floor(Math.random() * n)\<close>, computed in doubles, is within the
  list, and the result is that of \<open>fetchRecipeDetails\<close> for the identifier of the entry at
  that index. For a list of at most \<open>2^53\<close> entries (an array has fewer than \<open>2^32\<close>), the
  index is \<open>j\<close> whenever the exact product of the random number and \<open>n\<close> lies in
  \<open>[j, (j + 1) (1 - 2^-53))\<close>, and only when it lies in \<open>[j (1 - 2^-53), j + 1)\<close>: up to
  the rounding of the product, every index has an interval of length \<open>1/n\<close> of the random
  numbers, so all indices are equally likely under a uniform \<open>Math.random\<close>.
\<close>

theorem getRandomDessertRecipe_cases:
  assumes "get_desserts h t = Responds True statusText (Inr desserts)"
  shows "(case list_meals desserts of
            None \<Rightarrow> getRandomDessertRecipe h t
                     = (Inl (Error (ascii ''No dessert recipes found'')), t @ [FetchDesserts])
          | Some meals \<Rightarrow>
              if meals = []
              then getRandomDessertRecipe h t
                     = (Inl (Error (ascii ''No dessert recipes found'')), t @ [FetchDesserts])
              else random_index (math_random h (t @ [FetchDesserts])) (length meals) < length meals
                 \<and> getRandomDessertRecipe h t
                     = fetchRecipeDetails h (t @ [FetchDesserts, MathRandom])
                         (sum_idMeal (meals ! random_index (math_random h (t @ [FetchDesserts])) (length meals)))
                 \<and> (length meals \<le> 2 ^ 53 \<longrightarrow>
                      list_all (\<lambda>j.
                          (real j \<le> double_value (math_random h (t @ [FetchDesserts])) * real (length meals)
                           \<and> double_value (math_random h (t @ [FetchDesserts])) * real (length meals)
                               < (real j + 1) * (1 - 1 / 2 ^ 53)
                           \<longrightarrow> random_index (math_random h (t @ [FetchDesserts])) (length meals) = j)
                        \<and> (random_index (math_random h (t @ [FetchDesserts])) (length meals) = j
                           \<longrightarrow> real j * (1 - 1 / 2 ^ 53)
                                 \<le> double_value (math_random h (t @ [FetchDesserts])) * real (length meals)
                               \<and> double_value (math_random h (t @ [FetchDesserts])) * real (length meals)
                                 < real j + 1))
                        [0..<length meals]))"
proof (cases "list_meals desserts")
  case None
  with assms show ?thesis
    by (simp add: getRandomDessertRecipe_def fetchDessertRecipes_def)
next
  case (Some meals)
  show ?thesis
  proof (cases "meals = []")
    case True
    with assms Some show ?thesis
      by (simp add: getRandomDessertRecipe_def fetchDessertRecipes_def)
  next
    case False
    then have n: "0 < length meals" by simp
    let ?r = "math_random h (t @ [FetchDesserts])"
    have less: "random_index ?r (length meals) < length meals" by (rule random_index_less [OF n])
    have run: "getRandomDessertRecipe h t
            = fetchRecipeDetails h (t @ [FetchDesserts, MathRandom])
                (sum_idMeal (meals ! random_index ?r (length meals)))"
      using assms Some False less
      by (simp add: getRandomDessertRecipe_def fetchDessertRecipes_def Let_def)
    have uni: "list_all (\<lambda>j.
                 (real j \<le> double_value ?r * real (length meals)
                  \<and> double_value ?r * real (length meals) < (real j + 1) * (1 - 1 / 2 ^ 53)
                  \<longrightarrow> random_index ?r (length meals) = j)
               \<and> (random_index ?r (length meals) = j
                  \<longrightarrow> real j * (1 - 1 / 2 ^ 53) \<le> double_value ?r * real (length meals)
                      \<and> double_value ?r * real (length meals) < real j + 1))
               [0..<length meals]"
      if le: "length meals \<le> 2 ^ 53"
      unfolding list_all_iff using random_index_interval [OF n le, where r = ?r] by blast
    show ?thesis using Some False less run uni by simp
  qed
qed

theorem getRandomDessertRecipe_cases_witness:
  "getRandomDessertRecipe empty_host [] = (Inl (Error (ascii ''No dessert recipes found'')), [FetchDesserts])
   \<and> random_index (math_random demo_host [FetchDesserts]) (length demo_catalogue) = 2
   \<and> getRandomDessertRecipe demo_host []
       = fetchRecipeDetails demo_host [FetchDesserts, MathRandom] (ascii ''52893'')"
proof -
  have e: "get_desserts empty_host [] = Responds True (ascii ''OK'') (Inr \<lparr>list_meals = Some []\<rparr>)"
    by (simp add: empty_host_def demo_host_def)
  have d: "get_desserts demo_host [] = Responds True (ascii ''OK'') (Inr \<lparr>list_meals = Some demo_catalogue\<rparr>)"
    by (simp add: demo_host_def)
  have l: "length demo_catalogue = 5" "demo_catalogue \<noteq> []"
    "sum_idMeal (demo_catalogue ! 2) = ascii ''52893''"
    by (simp_all add: demo_catalogue_def)
  have v: "double_value (math_random demo_host [FetchDesserts]) = 1 / 2"
    by (simp add: demo_host_def double_value_def Rep_half)
  have "list_all (\<lambda>j.
          (real j \<le> double_value (math_random demo_host [FetchDesserts]) * real (length demo_catalogue)
           \<and> double_value (math_random demo_host [FetchDesserts]) * real (length demo_catalogue)
               < (real j + 1) * (1 - 1 / 2 ^ 53)
           \<longrightarrow> random_index (math_random demo_host [FetchDesserts]) (length demo_catalogue) = j)
        \<and> (random_index (math_random demo_host [FetchDesserts]) (length demo_catalogue) = j
           \<longrightarrow> real j * (1 - 1 / 2 ^ 53)
                 \<le> double_value (math_random demo_host [FetchDesserts]) * real (length demo_catalogue)
               \<and> double_value (math_random demo_host [FetchDesserts]) * real (length demo_catalogue)
                 < real j + 1))
        [0..<length demo_catalogue]"
    using getRandomDessertRecipe_cases [OF d] l by simp
  then have i: "random_index (math_random demo_host [FetchDesserts]) (length demo_catalogue) = 2"
    unfolding list_all_iff v l(1) by (drule_tac x = 2 in bspec) simp_all
  show ?thesis
    using getRandomDessertRecipe_cases [OF e] getRandomDessertRecipe_cases [OF d] i l
    by simp
qed

text \<open>
  C6. When the lookup finds a record, the ingredients of the recipe are, in the order of
  the slots 1 to 20, one entry for every slot whose ingredient is not blank after
  trimming, with the trimmed name and the (trimmed) measure passed through
  \<open>expandUnits\<close>, a missing measure counting as the empty string; their number is the
  number of non-blank slots.
\<close>

theorem fetchRecipeDetails_ingredients:
  assumes "get_detail h t mealId = Responds True statusText (Inr data)"
    and "detail_meals data = Some (meal # others)"
  shows "\<exists>r t'. fetchRecipeDetails h t mealId = (Inr r, t')
           \<and> rec_ingredients r =
               [\<lparr>ing_name = trim s, ing_measure = expandUnits (measure_of (strMeasure meal i))\<rparr>.
                  i \<leftarrow> [1..<21],
                  s \<leftarrow> (case strIngredient meal i of None \<Rightarrow> [] | Some x \<Rightarrow> [x]),
                  trim s \<noteq> []]
           \<and> length (rec_ingredients r)
               = card {i. 1 \<le> i \<and> i \<le> 20 \<and> non_blank (strIngredient meal i)}"
proof -
  obtain img t' where "fetchRecipeDetails h t mealId = (Inr (build_recipe meal img), t')"
    using fetchRecipeDetails_found [OF assms] by blast
  moreover have "rec_ingredients (build_recipe meal img) = ingredients_of meal"
    by (simp add: build_recipe_def)
  ultimately show ?thesis
    using ingredients_of_eq [of meal] length_ingredients_of [of meal] by simp
qed

theorem fetchRecipeDetails_ingredients_witness:
  "\<exists>r t'. fetchRecipeDetails demo_host [] (ascii ''52893'') = (Inr r, t')
     \<and> rec_ingredients r =
         [\<lparr>ing_name = ascii ''Apples'', ing_measure = ascii ''2 pounds''\<rparr>,
          \<lparr>ing_name = ascii ''Butter'', ing_measure = ascii ''2 tablespoons''\<rparr>,
          \<lparr>ing_name = ascii ''Sugar'', ing_measure = []\<rparr>]
     \<and> length (rec_ingredients r) = 3"
proof -
  have d: "get_detail demo_host [] (ascii ''52893'') = Responds True (ascii ''OK'') (Inr \<lparr>detail_meals = Some [demo_meal]\<rparr>)"
    by (simp add: demo_host_def)
  have m: "detail_meals \<lparr>detail_meals = Some [demo_meal]\<rparr> = Some (demo_meal # [])" by simp
  have u: "[1..<21] = [1,2,3,4,5,6,7,8,9,10,11,12,13,14,15,16,17,18,19,20::nat]"
    by (simp add: upt_rec)
  have e: "[\<lparr>ing_name = trim s, ing_measure = expandUnits (measure_of (strMeasure demo_meal i))\<rparr>.
                  i \<leftarrow> [1..<21],
                  s \<leftarrow> (case strIngredient demo_meal i of None \<Rightarrow> [] | Some x \<Rightarrow> [x]),
                  trim s \<noteq> []] = [\<lparr>ing_name = ascii ''Apples'', ing_measure = ascii ''2 pounds''\<rparr>,
          \<lparr>ing_name = ascii ''Butter'', ing_measure = ascii ''2 tablespoons''\<rparr>,
          \<lparr>ing_name = ascii ''Sugar'', ing_measure = []\<rparr>]"
    unfolding u by (simp add: demo_meal_def measure_of_def expander_defs char_class_defs regex_eval)
  show ?thesis
    using fetchRecipeDetails_ingredients [OF d m] unfolding e by auto
qed


text \<open>Without network the result is the third fallback image (the random number is 1/2).\<close>

lemma getWikimediaImage_offline:
  "getWikimediaImage offline_host [] (ascii ''Apple & Blackberry Crumble'')
     = (Inr (ascii ''https://upload.wikimedia.org/wikipedia/commons/thumb/d/d3/Desserts.jpg/800px-Desserts.jpg''),
        [FetchSearch (ascii ''apple blackberry crumble dessert''), MathRandom])"
  by (simp add: fetch_defs host_defs char_class_defs regex_eval)

end
